theory Spec2Isabelle
  imports Complex_Main
begin

section \<open>Numbers of the rank type\<close>

text \<open>
  The rank maps of \<^verbatim>\<open>get_pagerank\<close> hold floating-point numbers
  (\<^verbatim>\<open>rank_type\<close>). The kernel's control flow depends on the special values of
  that arithmetic: a division by zero yields an infinity or a NaN instead of trapping, and
  every comparison with a NaN is false. The type \<open>fl\<close> keeps exactly these special
  values; finite values are exact reals, so rounding, overflow to infinity and the sign of
  zero are not part of the model.
\<close>

datatype fl = Fin real | PInf | NInf | NaN

fun fneg :: "fl \<Rightarrow> fl" where
  "fneg (Fin x) = Fin (- x)"
| "fneg PInf = NInf"
| "fneg NInf = PInf"
| "fneg NaN = NaN"

fun fadd :: "fl \<Rightarrow> fl \<Rightarrow> fl" where
  "fadd (Fin x) (Fin y) = Fin (x + y)"
| "fadd (Fin x) PInf = PInf"
| "fadd (Fin x) NInf = NInf"
| "fadd PInf (Fin y) = PInf"
| "fadd PInf PInf = PInf"
| "fadd PInf NInf = NaN"
| "fadd NInf (Fin y) = NInf"
| "fadd NInf PInf = NaN"
| "fadd NInf NInf = NInf"
| "fadd NaN y = NaN"
| "fadd x NaN = NaN"

definition fsub :: "fl \<Rightarrow> fl \<Rightarrow> fl" where
  "fsub x y = fadd x (fneg y)"

fun fmul :: "fl \<Rightarrow> fl \<Rightarrow> fl" where
  "fmul (Fin x) (Fin y) = Fin (x * y)"
| "fmul (Fin x) PInf = (if x = 0 then NaN else if 0 < x then PInf else NInf)"
| "fmul (Fin x) NInf = (if x = 0 then NaN else if 0 < x then NInf else PInf)"
| "fmul PInf (Fin y) = (if y = 0 then NaN else if 0 < y then PInf else NInf)"
| "fmul NInf (Fin y) = (if y = 0 then NaN else if 0 < y then NInf else PInf)"
| "fmul PInf PInf = PInf"
| "fmul PInf NInf = NInf"
| "fmul NInf PInf = NInf"
| "fmul NInf NInf = PInf"
| "fmul NaN y = NaN"
| "fmul x NaN = NaN"

fun fdiv :: "fl \<Rightarrow> fl \<Rightarrow> fl" where
  "fdiv (Fin x) (Fin y) =
     (if y = 0 then (if x = 0 then NaN else if 0 < x then PInf else NInf)
      else Fin (x / y))"
| "fdiv (Fin x) PInf = Fin 0"
| "fdiv (Fin x) NInf = Fin 0"
| "fdiv PInf (Fin y) = (if 0 \<le> y then PInf else NInf)"
| "fdiv NInf (Fin y) = (if 0 \<le> y then NInf else PInf)"
| "fdiv PInf PInf = NaN"
| "fdiv PInf NInf = NaN"
| "fdiv NInf PInf = NaN"
| "fdiv NInf NInf = NaN"
| "fdiv NaN y = NaN"
| "fdiv x NaN = NaN"

fun fabs :: "fl \<Rightarrow> fl" where
  "fabs (Fin x) = Fin \<bar>x\<bar>"
| "fabs PInf = PInf"
| "fabs NInf = PInf"
| "fabs NaN = NaN"

text \<open>\<open>fge x y\<close> is the comparison \<^verbatim>\<open>x >= y\<close>, \<open>flt x y\<close> is \<^verbatim>\<open>x < y\<close>.\<close>

fun fge :: "fl \<Rightarrow> fl \<Rightarrow> bool" where
  "fge (Fin x) (Fin y) = (y \<le> x)"
| "fge (Fin x) PInf = False"
| "fge (Fin x) NInf = True"
| "fge PInf (Fin y) = True"
| "fge PInf PInf = True"
| "fge PInf NInf = True"
| "fge NInf (Fin y) = False"
| "fge NInf PInf = False"
| "fge NInf NInf = True"
| "fge NaN y = False"
| "fge x NaN = False"

fun flt :: "fl \<Rightarrow> fl \<Rightarrow> bool" where
  "flt (Fin x) (Fin y) = (x < y)"
| "flt (Fin x) PInf = True"
| "flt (Fin x) NInf = False"
| "flt PInf y = False"
| "flt NInf (Fin y) = True"
| "flt NInf PInf = True"
| "flt NInf NInf = False"
| "flt NaN y = False"
| "flt x NaN = False"

fun is_finite :: "fl \<Rightarrow> bool" where
  "is_finite (Fin x) = True"
| "is_finite PInf = False"
| "is_finite NInf = False"
| "is_finite NaN = False"

section \<open>Graphs\<close>

text \<open>
  An adjacency-list multigraph: vertices are the indices \<open>0..<num_vertices\<close>, an
  edge is a (source, target) pair and its edge index is its position in \<open>edge_list\<close>.
  Vertex and edge filters and the reversed view are not modelled: every function below
  runs on the unfiltered graph.
\<close>

record graph =
  num_vertices :: nat
  edge_list :: "(nat \<times> nat) list"

record edge =
  source :: nat
  target :: nat
  idx :: nat

text \<open>
  Modelled from the spec: \<^verbatim>\<open>add_vertex(g)\<close> and \<^verbatim>\<open>add_edge(s, t, g)\<close> of the
  adjacency list (their definitions are in \<^verbatim>\<open>graph_adjacency.hh\<close>). A new vertex
  gets the next unused index; a new edge is appended, whatever edges exist already.
\<close>

definition add_vertex :: "graph \<Rightarrow> graph \<times> nat" where
  "add_vertex g = (g\<lparr>num_vertices := Suc (num_vertices g)\<rparr>, num_vertices g)"

definition add_edge :: "nat \<Rightarrow> nat \<Rightarrow> graph \<Rightarrow> graph \<times> edge" where
  "add_edge s t g =
     (g\<lparr>edge_list := edge_list g @ [(s, t)]\<rparr>,
      \<lparr>source = s, target = t, idx = length (edge_list g)\<rparr>)"

definition all_edges :: "graph \<Rightarrow> edge list" where
  "all_edges g =
     map (\<lambda>(i, (s, t)). \<lparr>source = s, target = t, idx = i\<rparr>) (enumerate 0 (edge_list g))"

text \<open>
  Modelled from the spec: the traversal primitives of \<^verbatim>\<open>graph_util.hh\<close>. In a
  directed graph \<^verbatim>\<open>in_or_out_edges_range(v, g)\<close> is the in-edges of \<open>v\<close>; in an
  undirected graph it is every edge incident to \<open>v\<close>, presented with \<open>v\<close> as its
  source and the adjacent endpoint as its target (a self-loop appears twice).
  \<^verbatim>\<open>out_degreeS()(v, g, weight)\<close> adds the weights of the out-edges of \<open>v\<close>.
\<close>

definition out_edges_range :: "bool \<Rightarrow> nat \<Rightarrow> graph \<Rightarrow> edge list" where
  "out_edges_range directed v g =
     (if directed then filter (\<lambda>e. source e = v) (all_edges g)
      else filter (\<lambda>e. source e = v) (all_edges g) @
           map (\<lambda>e. \<lparr>source = v, target = source e, idx = idx e\<rparr>)
             (filter (\<lambda>e. target e = v) (all_edges g)))"

definition in_edges_range :: "nat \<Rightarrow> graph \<Rightarrow> edge list" where
  "in_edges_range v g = filter (\<lambda>e. target e = v) (all_edges g)"

definition in_or_out_edges_range :: "bool \<Rightarrow> nat \<Rightarrow> graph \<Rightarrow> edge list" where
  "in_or_out_edges_range directed v g =
     (if directed then in_edges_range v g else out_edges_range directed v g)"

definition out_degreeS :: "bool \<Rightarrow> nat \<Rightarrow> graph \<Rightarrow> (nat \<Rightarrow> fl) \<Rightarrow> fl" where
  "out_degreeS directed v g weight =
     foldl fadd (Fin 0) (map (\<lambda>e. weight (idx e)) (out_edges_range directed v g))"

section \<open>The PageRank kernel\<close>

text \<open>
  A \<^verbatim>\<open>RankMap\<close> is passed to the kernel by value and the kernel returns nothing, so
  the object is a handle on storage shared with the caller. The store below holds the three
  vectors the kernel touches: the caller's rank vector, the vector allocated for
  \<^verbatim>\<open>r_temp\<close> and the one allocated for \<^verbatim>\<open>deg\<close>. The local variables
  \<^verbatim>\<open>rank\<close> and \<^verbatim>\<open>r_temp\<close> are handles, and \<^verbatim>\<open>swap(r_temp, rank)\<close>
  exchanges the handles.
\<close>

datatype buf = Caller | Scratch | Deg

type_synonym store = "buf \<Rightarrow> nat \<Rightarrow> fl"

definition get :: "store \<Rightarrow> buf \<Rightarrow> nat \<Rightarrow> fl" where
  "get st m v = st m v"

definition put :: "store \<Rightarrow> buf \<Rightarrow> nat \<Rightarrow> fl \<Rightarrow> store" where
  "put st m v x = st(m := (st m)(v := x))"

text \<open>The first \<^verbatim>\<open>parallel_vertex_loop\<close>: \<^verbatim>\<open>put(deg, v, out_degreeS()(v, g, weight))\<close>.\<close>

fun init_degs :: "bool \<Rightarrow> graph \<Rightarrow> (nat \<Rightarrow> fl) \<Rightarrow> nat list \<Rightarrow> store \<Rightarrow> store" where
  "init_degs directed g weight [] st = st"
| "init_degs directed g weight (v # vs) st =
     init_degs directed g weight vs (put st Deg v (out_degreeS directed v g weight))"

text \<open>
  The loop over the edges of one vertex, lines 64 to 72: \<open>r\<close> is the accumulator,
  \<open>s\<close> the flow source of the edge. The division has no guard.
\<close>

fun edge_loop :: "bool \<Rightarrow> store \<Rightarrow> buf \<Rightarrow> (nat \<Rightarrow> fl) \<Rightarrow> edge list \<Rightarrow> fl \<Rightarrow> fl" where
  "edge_loop directed st rank weight [] r = r"
| "edge_loop directed st rank weight (e # es) r =
     (let s = (if directed then source e else target e)
      in edge_loop directed st rank weight es
           (fadd r (fdiv (fmul (get st rank s) (weight (idx e))) (get st Deg s))))"

text \<open>
  One pass of \<^verbatim>\<open>parallel_vertex_loop_no_spawn\<close>, lines 59 to 77. Every vertex reads
  \<open>rank\<close> and \<open>deg\<close> and writes its own slot of \<open>r_temp\<close>, so the vertices are
  taken in index order; \<open>delta\<close> is the reduction variable.
\<close>

fun vertex_loop ::
  "bool \<Rightarrow> graph \<Rightarrow> (nat \<Rightarrow> fl) \<Rightarrow> (nat \<Rightarrow> fl) \<Rightarrow> fl \<Rightarrow> buf \<Rightarrow> buf \<Rightarrow> nat list \<Rightarrow>
   store \<Rightarrow> fl \<Rightarrow> store \<times> fl" where
  "vertex_loop directed g pers weight d rank r_temp [] st delta = (st, delta)"
| "vertex_loop directed g pers weight d rank r_temp (v # vs) st delta =
     (let r = edge_loop directed st rank weight (in_or_out_edges_range directed v g) (Fin 0);
          st' = put st r_temp v (fadd (fmul (fsub (Fin 1) d) (pers v)) (fmul d r));
          delta' = fadd delta (fabs (fsub (get st' r_temp v) (get st' rank v)))
      in vertex_loop directed g pers weight d rank r_temp vs st' delta')"

text \<open>
  The state of the \<^verbatim>\<open>while\<close> loop. The counter \<^verbatim>\<open>iter\<close> is a
  \<^verbatim>\<open>size_t\<close> that grows by one per pass; it is a natural number here.
\<close>

record pr_state =
  mem :: store
  rank_h :: buf
  r_temp_h :: buf
  delta_v :: fl
  iter_v :: nat

text \<open>Lines 56 to 79: one pass over the vertices, the swap and the increment.\<close>

definition loop_body ::
  "bool \<Rightarrow> graph \<Rightarrow> (nat \<Rightarrow> fl) \<Rightarrow> (nat \<Rightarrow> fl) \<Rightarrow> fl \<Rightarrow> pr_state \<Rightarrow> pr_state" where
  "loop_body directed g pers weight d s =
     (let (st', delta') =
            vertex_loop directed g pers weight d (rank_h s) (r_temp_h s)
              [0..<num_vertices g] (mem s) (Fin 0)
      in \<lparr>mem = st', rank_h = r_temp_h s, r_temp_h = rank_h s, delta_v = delta',
          iter_v = iter_v s + 1\<rparr>)"

text \<open>
  The \<^verbatim>\<open>while (delta >= epsilon)\<close> loop with its \<^verbatim>\<open>break\<close>. With
  \<open>max_iter = 0\<close> nothing bounds the number of passes, so the loop is a partial
  function: \<open>None\<close> means that it never exits.
\<close>

partial_function (option) while_loop ::
  "bool \<Rightarrow> graph \<Rightarrow> (nat \<Rightarrow> fl) \<Rightarrow> (nat \<Rightarrow> fl) \<Rightarrow> fl \<Rightarrow> fl \<Rightarrow> nat \<Rightarrow> pr_state \<Rightarrow>
   pr_state option" where
  "while_loop directed g pers weight d epsilon max_iter s =
     (if fge (delta_v s) epsilon then
        (let s' = loop_body directed g pers weight d s
         in if max_iter > 0 \<and> iter_v s' = max_iter then Some s'
            else while_loop directed g pers weight d epsilon max_iter s')
      else Some s)"

declare while_loop.simps [code]

text \<open>The copy after the loop, lines 84 to 92.\<close>

fun copy_loop :: "buf \<Rightarrow> buf \<Rightarrow> nat list \<Rightarrow> store \<Rightarrow> store" where
  "copy_loop rank r_temp [] st = st"
| "copy_loop rank r_temp (v # vs) st =
     copy_loop rank r_temp vs (put st rank v (get st r_temp v))"

definition fixup :: "graph \<Rightarrow> pr_state \<Rightarrow> pr_state" where
  "fixup g s =
     (if iter_v s mod 2 \<noteq> 0
      then s\<lparr>mem := copy_loop (rank_h s) (r_temp_h s) [0..<num_vertices g] (mem s)\<rparr>
      else s)"

text \<open>
  The state at the loop's entry: \<open>rank\<close> is the caller's vector, \<open>r_temp\<close> and
  \<open>deg\<close> are fresh vectors (value-initialised), \<open>deg\<close> is filled by the first
  vertex loop, \<open>delta = epsilon + 1\<close> and \<open>iter = 0\<close>.
\<close>

definition init_state ::
  "bool \<Rightarrow> graph \<Rightarrow> (nat \<Rightarrow> fl) \<Rightarrow> (nat \<Rightarrow> fl) \<Rightarrow> fl \<Rightarrow> pr_state" where
  "init_state directed g rank0 weight epsilon =
     \<lparr>mem = init_degs directed g weight [0..<num_vertices g]
              (\<lambda>b. case b of Caller \<Rightarrow> rank0 | Scratch \<Rightarrow> (\<lambda>v. Fin 0) | Deg \<Rightarrow> (\<lambda>v. Fin 0)),
      rank_h = Caller, r_temp_h = Scratch,
      delta_v = fadd epsilon (Fin 1), iter_v = 0\<rparr>"

text \<open>
  \<^verbatim>\<open>get_pagerank::operator()\<close>. \<open>rank0\<close> is the content of the caller's rank
  vector at the call. The result is the final state: the caller reads its ranks in
  \<open>mem s Caller\<close> and the number of passes in \<open>iter_v s\<close>.
\<close>

definition get_pagerank ::
  "bool \<Rightarrow> graph \<Rightarrow> (nat \<Rightarrow> fl) \<Rightarrow> (nat \<Rightarrow> fl) \<Rightarrow> (nat \<Rightarrow> fl) \<Rightarrow> fl \<Rightarrow> fl \<Rightarrow> nat \<Rightarrow>
   pr_state option" where
  "get_pagerank directed g rank0 pers weight damping epsilon max_iter =
     (case while_loop directed g pers weight damping epsilon max_iter
             (init_state directed g rank0 weight epsilon) of
        None \<Rightarrow> None
      | Some s \<Rightarrow> Some (fixup g s))"

section \<open>Adding vertices from Python\<close>

text \<open>
  \<^verbatim>\<open>add_vertex(python::object g, size_t n)\<close>, lines 125 to 136. The result is the new
  graph and the returned object: \<open>None\<close> stands for Python's \<^verbatim>\<open>None\<close>,
  \<open>Some v\<close> for the vertex object of \<open>v\<close>.
\<close>

fun add_vertices :: "nat \<Rightarrow> graph \<Rightarrow> graph" where
  "add_vertices 0 g = g"
| "add_vertices (Suc i) g = add_vertices i (fst (add_vertex g))"

definition py_add_vertex :: "graph \<Rightarrow> nat \<Rightarrow> graph \<times> nat option" where
  "py_add_vertex g n =
     (if n > 1 then (add_vertices n g, None)
      else (let (g', v) = add_vertex g in (g', Some v)))"

section \<open>The edge-list loaders\<close>

text \<open>
  An exception leaves behind whatever the loader has done so far, so a result carries the
  state in both cases. \<open>TypeError\<close> is the failure of
  \<^verbatim>\<open>python::extract<std::string>\<close>. Two outcomes stand for undefined behaviour
  of C++, where the model stops: \<open>OutOfBounds\<close> for an access \<^verbatim>\<open>eprops[i]\<close> past
  the end of the vector, and \<open>UndefinedConversion\<close> for the conversion to
  \<^verbatim>\<open>size_t\<close> of a floating-point value whose truncation is no \<^verbatim>\<open>size_t\<close>.
\<close>

datatype exn =
    GraphException string
  | ValueException string
  | bad_lexical_cast
  | TypeError
  | OutOfBounds
  | UndefinedConversion

datatype ('s, 'a) res = Ok 's 'a | Throw 's exn

text \<open>
  The element types \<^verbatim>\<open>vals_t\<close> of lines 451 to 453 (\<^verbatim>\<open>uint64_t\<close> is listed
  twice); \<open>T_other\<close> is any other element type of an array.
\<close>

datatype scalar_type =
    T_bool | T_char | T_uint8 | T_uint16 | T_uint32 | T_uint64
  | T_int8 | T_int16 | T_int32 | T_int64 | T_double | T_long_double | T_other

definition vals_t :: "scalar_type list" where
  "vals_t = [T_bool, T_char, T_uint8, T_uint16, T_uint32, T_uint64,
             T_int8, T_int16, T_int32, T_int64, T_uint64, T_double, T_long_double]"

text \<open>
  The value of an array element: an integer for the integral element types, a
  floating-point value for \<^verbatim>\<open>double\<close> and \<^verbatim>\<open>long double\<close>.
\<close>

datatype scalar = IntVal int | FloatVal fl

text \<open>
  A numpy array with its element type, its number of dimensions, its shape and its
  elements. \<open>NotArray\<close> is a Python object that is no array.
\<close>

record ndarray =
  dtype :: scalar_type
  ndim :: nat
  shape0 :: nat
  shape1 :: nat
  elem :: "nat \<Rightarrow> nat \<Rightarrow> scalar"

datatype pyobject = NdArray ndarray | NotArray

text \<open>
  Modelled from the spec: \<^verbatim>\<open>get_array<Value, 2>\<close> of \<^verbatim>\<open>numpy_bind.hh\<close>. It gives
  the array when the object is a two-dimensional array whose element type is \<open>Value\<close>;
  otherwise it throws \<^verbatim>\<open>invalid_numpy_conversion\<close>, which is \<open>None\<close> here.
\<close>

definition get_array :: "scalar_type \<Rightarrow> pyobject \<Rightarrow> ndarray option" where
  "get_array ty obj =
     (case obj of
        NotArray \<Rightarrow> None
      | NdArray a \<Rightarrow> if ndim a = 2 \<and> dtype a = ty then Some a else None)"

text \<open>
  The conversion of \<^verbatim>\<open>size_t s = e[0]\<close>. An integer is taken modulo \<open>2 ^ 64\<close>, so
  a negative index becomes a large one. A floating-point value is truncated towards zero;
  when the truncated value is no \<^verbatim>\<open>size_t\<close> (the value is \<open>-1\<close> or less,
  \<open>2 ^ 64\<close> or more, an infinity or a NaN) the conversion is undefined, which is
  \<open>None\<close>.
\<close>

definition size_max :: nat where
  "size_max = 2 ^ 64 - 1"

fun to_size_t :: "scalar \<Rightarrow> nat option" where
  "to_size_t (IntVal i) = Some (nat (i mod 2 ^ 64))"
| "to_size_t (FloatVal (Fin x)) = (if - 1 < x \<and> x < 2 ^ 64 then Some (nat \<lfloor>x\<rfloor>) else None)"
| "to_size_t (FloatVal PInf) = None"
| "to_size_t (FloatVal NInf) = None"
| "to_size_t (FloatVal NaN) = None"

text \<open>
  The state a loader works on: the graph and the storage of the edge property maps, each a
  map from edge indices to values. The conversion of a value for the \<open>i\<close>-th map,
  \<^verbatim>\<open>DynamicPropertyMapWrap::put\<close>, is not under src/; it is the parameter \<open>cvt\<close>,
  with \<open>None\<close> for \<^verbatim>\<open>bad_lexical_cast\<close>. The parameter \<open>str\<close> is the printing
  of a value in the error message. The maps are taken as writable edge property maps: the
  wrapping of lines 416 to 419 is not part of the model.
\<close>

record 'p dstate =
  gr :: graph
  eprops :: "(nat \<rightharpoonup> 'p) list"

text \<open>
  \<^verbatim>\<open>while (s >= num_vertices(g) || t >= num_vertices(g)) add_vertex(g);\<close> of line
  425. The vertex count is a \<^verbatim>\<open>size_t\<close> and cannot pass \<open>size_max\<close>: when
  \<open>s\<close> or \<open>t\<close> is \<open>size_max\<close> the test is true for every count and the loop has
  no exit, which is \<open>None\<close>.
\<close>

function grow :: "nat \<Rightarrow> nat \<Rightarrow> graph \<Rightarrow> graph option" where
  "grow s t g =
     (if s \<ge> num_vertices g \<or> t \<ge> num_vertices g
      then (if num_vertices g < size_max then grow s t (fst (add_vertex g)) else None)
      else Some g)"
  by pat_completeness auto
termination
  by (relation "measure (\<lambda>(s, t, g). size_max - num_vertices g)")
     (auto simp add: add_vertex_def)

declare grow.simps [simp del]

text \<open>Lines 428 to 439: the values of a row after the first two go to the property maps.\<close>

fun props_loop ::
  "(nat \<Rightarrow> scalar \<Rightarrow> 'p option) \<Rightarrow> (scalar \<Rightarrow> string) \<Rightarrow> ndarray \<Rightarrow> nat \<Rightarrow> edge \<Rightarrow> nat list \<Rightarrow>
   'p dstate \<Rightarrow> ('p dstate, unit) res" where
  "props_loop cvt str a r ne [] st = Ok st ()"
| "props_loop cvt str a r ne (i # rest) st =
     (if length (eprops st) \<le> i then Throw st OutOfBounds
      else case cvt i (elem a r (i + 2)) of
             None \<Rightarrow>
               Throw st (ValueException (''Invalid edge property value: '' @ str (elem a r (i + 2))))
           | Some y \<Rightarrow>
               props_loop cvt str a r ne rest
                 (st\<lparr>eprops := (eprops st)[i := (eprops st ! i)(idx ne \<mapsto> y)]\<rparr>))"

text \<open>
  Lines 421 to 440: the loop over the rows \<open>rs\<close> of the array. The result is
  \<open>None\<close> when the loop of line 425 has no exit.
\<close>

fun rows_loop ::
  "(nat \<Rightarrow> scalar \<Rightarrow> 'p option) \<Rightarrow> (scalar \<Rightarrow> string) \<Rightarrow> ndarray \<Rightarrow> nat list \<Rightarrow>
   'p dstate \<Rightarrow> ('p dstate, unit) res option" where
  "rows_loop cvt str a [] st = Some (Ok st ())"
| "rows_loop cvt str a (r # rs) st =
     (case to_size_t (elem a r 0) of
        None \<Rightarrow> Some (Throw st UndefinedConversion)
      | Some s \<Rightarrow>
     (case to_size_t (elem a r 1) of
        None \<Rightarrow> Some (Throw st UndefinedConversion)
      | Some t \<Rightarrow>
     (case grow s t (gr st) of
        None \<Rightarrow> None
      | Some g1 \<Rightarrow>
          (let (g2, ne) = add_edge s t g1
           in case props_loop cvt str a r ne [0..<shape1 a - 2] (st\<lparr>gr := g2\<rparr>) of
                Throw st' x \<Rightarrow> Some (Throw st' x)
              | Ok st' u \<Rightarrow> rows_loop cvt str a rs st'))))"

text \<open>
  \<^verbatim>\<open>add_edge_list::dispatch::operator()\<close> for one element type, lines 403 to 444, on
  the state and the flag \<open>found\<close>.
\<close>

definition dispatch ::
  "(nat \<Rightarrow> scalar \<Rightarrow> 'p option) \<Rightarrow> (scalar \<Rightarrow> string) \<Rightarrow> pyobject \<Rightarrow> scalar_type \<Rightarrow>
   'p dstate \<times> bool \<Rightarrow> ('p dstate \<times> bool, unit) res option" where
  "dispatch cvt str aedge_list ty = (\<lambda>(st, found).
     if found then Some (Ok (st, found) ())
     else case get_array ty aedge_list of
            None \<Rightarrow> Some (Ok (st, found) ())
          | Some arr \<Rightarrow>
              if shape1 arr < 2
              then Some (Throw (st, found)
                     (GraphException
                        ''Second dimension in edge list must be of size (at least) two''))
              else case rows_loop cvt str arr [0..<shape0 arr] st of
                     None \<Rightarrow> None
                   | Some (Throw st' x) \<Rightarrow> Some (Throw (st', found) x)
                   | Some (Ok st' u) \<Rightarrow> Some (Ok (st', True) ()))"

text \<open>\<^verbatim>\<open>boost::mpl::for_each\<close> over a list of element types.\<close>

fun for_each ::
  "('t \<Rightarrow> 's \<Rightarrow> ('s, unit) res option) \<Rightarrow> 't list \<Rightarrow> 's \<Rightarrow> ('s, unit) res option" where
  "for_each f [] s = Some (Ok s ())"
| "for_each f (ty # tys) s =
     (case f ty s of
        None \<Rightarrow> None
      | Some (Throw s' x) \<Rightarrow> Some (Throw s' x)
      | Some (Ok s' u) \<Rightarrow> for_each f tys s')"

text \<open>
  \<^verbatim>\<open>do_add_edge_list\<close>, lines 448 to 460. \<open>None\<close> is a call that does not
  return.
\<close>

definition do_add_edge_list ::
  "(nat \<Rightarrow> scalar \<Rightarrow> 'p option) \<Rightarrow> (scalar \<Rightarrow> string) \<Rightarrow> 'p dstate \<Rightarrow> pyobject \<Rightarrow>
   ('p dstate, unit) res option" where
  "do_add_edge_list cvt str st aedge_list =
     (case for_each (dispatch cvt str aedge_list) vals_t (st, False) of
        None \<Rightarrow> None
      | Some (Throw (st', found) x) \<Rightarrow> Some (Throw st' x)
      | Some (Ok (st', found) u) \<Rightarrow>
          if \<not> found
          then Some (Throw st'
                 (GraphException
                    ''Invalid type for edge list; must be two-dimensional with a scalar type''))
          else Some (Ok st' ()))"

subsection \<open>The hashed loader for text keys\<close>

text \<open>
  Python values as the rows of an iterable hold them. The state of the hashed loader has,
  besides the graph and the edge property maps, the caller's vertex property map
  \<open>vmap\<close>; the table \<^verbatim>\<open>vertices\<close> is local to the call.
\<close>

datatype pyval = PyStr string | PyInt int | PyNone

record ('p, 'q) hstate =
  hgr :: graph
  heprops :: "(nat \<rightharpoonup> 'p) list"
  vmap :: "nat \<rightharpoonup> 'q"

text \<open>\<^verbatim>\<open>python::extract<std::string>(val)\<close>; \<open>None\<close> is its failure.\<close>

fun extract_string :: "pyval \<Rightarrow> string option" where
  "extract_string (PyStr r) = Some r"
| "extract_string (PyInt i) = None"
| "extract_string PyNone = None"

text \<open>
  The lambda \<^verbatim>\<open>get_vertex\<close>, lines 504 to 515 and 556 to 567 (the same text for a
  key type \<open>Value\<close> and for \<^verbatim>\<open>std::string\<close>). \<open>cast\<close> is the
  \<^verbatim>\<open>lexical_cast\<close> of the key to the value type of \<open>vmap\<close>; it runs after the
  vertex is added and the key is entered in the table.
\<close>

definition get_vertex ::
  "('k \<Rightarrow> 'q option) \<Rightarrow> 'k \<Rightarrow> ('p, 'q) hstate \<times> ('k \<rightharpoonup> nat) \<Rightarrow>
   (('p, 'q) hstate \<times> ('k \<rightharpoonup> nat), nat) res" where
  "get_vertex cast r = (\<lambda>(st, vertices).
     case vertices r of
       None \<Rightarrow>
         (let (g', v) = add_vertex (hgr st);
              st' = st\<lparr>hgr := g'\<rparr>;
              vertices' = vertices(r \<mapsto> v)
          in case cast r of
               None \<Rightarrow> Throw (st', vertices') bad_lexical_cast
             | Some x \<Rightarrow> Ok (st'\<lparr>vmap := (vmap st')(v \<mapsto> x)\<rparr>, vertices') v)
     | Some v \<Rightarrow> Ok (st, vertices) v)"

text \<open>\<^verbatim>\<open>while (s >= num_vertices(g)) add_vertex(g);\<close>\<close>

function grow1 :: "nat \<Rightarrow> graph \<Rightarrow> graph" where
  "grow1 s g = (if s \<ge> num_vertices g then grow1 s (fst (add_vertex g)) else g)"
  by pat_completeness auto
termination
  by (relation "measure (\<lambda>(s, g). Suc s - num_vertices g)") (auto simp add: add_vertex_def)

declare grow1.simps [simp del]

text \<open>
  The loop over the values of one row, lines 581 to 611: \<open>i\<close> is the position of the
  value, and \<open>(s, t, e)\<close> are the locals of the row. The edge \<open>e\<close> is read at
  positions from 2 on, after position 1 has set it.
\<close>

fun row_items ::
  "(string \<Rightarrow> 'q option) \<Rightarrow> (nat \<Rightarrow> pyval \<Rightarrow> 'p option) \<Rightarrow> (pyval \<Rightarrow> string) \<Rightarrow> nat \<Rightarrow>
   pyval list \<Rightarrow> nat \<times> nat \<times> edge \<Rightarrow> ('p, 'q) hstate \<times> (string \<rightharpoonup> nat) \<Rightarrow>
   (('p, 'q) hstate \<times> (string \<rightharpoonup> nat), unit) res" where
  "row_items cast cvt str i [] (s, t, e) (st, vertices) = Ok (st, vertices) ()"
| "row_items cast cvt str i (val # rest) (s, t, e) (st, vertices) =
     (if i \<ge> length (heprops st) + 2 then Ok (st, vertices) ()
      else if i = 0 then
        (case extract_string val of
           None \<Rightarrow> Throw (st, vertices) TypeError
         | Some r \<Rightarrow>
             (case get_vertex cast r (st, vertices) of
                Throw c x \<Rightarrow> Throw c x
              | Ok (st1, vertices1) s' \<Rightarrow>
                  row_items cast cvt str (Suc i) rest (s', t, e)
                    (st1\<lparr>hgr := grow1 s' (hgr st1)\<rparr>, vertices1)))
      else if i = 1 then
        (case extract_string val of
           None \<Rightarrow> Throw (st, vertices) TypeError
         | Some r \<Rightarrow>
             (case get_vertex cast r (st, vertices) of
                Throw c x \<Rightarrow> Throw c x
              | Ok (st1, vertices1) t' \<Rightarrow>
                  (let (g2, e') = add_edge s t' (grow1 t' (hgr st1))
                   in row_items cast cvt str (Suc i) rest (s, t', e')
                        (st1\<lparr>hgr := g2\<rparr>, vertices1))))
      else
        (case cvt (i - 2) val of
           None \<Rightarrow>
             Throw (st, vertices) (ValueException (''Invalid edge property value: '' @ str val))
         | Some y \<Rightarrow>
             row_items cast cvt str (Suc i) rest (s, t, e)
               (st\<lparr>heprops := (heprops st)[i - 2 := (heprops st ! (i - 2))(idx e \<mapsto> y)]\<rparr>,
                vertices)))"

text \<open>
  Lines 569 to 612: the loop over the rows. The locals of a row start as \<open>s = 0\<close>,
  \<open>t = 0\<close> and a default edge descriptor.
\<close>

definition null_edge :: edge where
  "null_edge = \<lparr>source = 0, target = 0, idx = 0\<rparr>"

fun hash_rows ::
  "(string \<Rightarrow> 'q option) \<Rightarrow> (nat \<Rightarrow> pyval \<Rightarrow> 'p option) \<Rightarrow> (pyval \<Rightarrow> string) \<Rightarrow>
   pyval list list \<Rightarrow> ('p, 'q) hstate \<times> (string \<rightharpoonup> nat) \<Rightarrow>
   (('p, 'q) hstate \<times> (string \<rightharpoonup> nat), unit) res" where
  "hash_rows cast cvt str [] c = Ok c ()"
| "hash_rows cast cvt str (row # rows) c =
     (case row_items cast cvt str 0 row (0, 0, null_edge) c of
        Throw c' x \<Rightarrow> Throw c' x
      | Ok c' u \<Rightarrow> hash_rows cast cvt str rows c')"

text \<open>
  \<^verbatim>\<open>add_edge_list_hash::dispatch::operator()\<close> for \<^verbatim>\<open>std::string\<close>, lines 541 to
  616: the table starts empty, and \<open>found\<close> is set after the last row.
\<close>

definition dispatch_string ::
  "(string \<Rightarrow> 'q option) \<Rightarrow> (nat \<Rightarrow> pyval \<Rightarrow> 'p option) \<Rightarrow> (pyval \<Rightarrow> string) \<Rightarrow>
   pyval list list \<Rightarrow> ('p, 'q) hstate \<times> bool \<Rightarrow> (('p, 'q) hstate \<times> bool, unit) res" where
  "dispatch_string cast cvt str rows = (\<lambda>(st, found).
     if found then Ok (st, found) ()
     else case hash_rows cast cvt str rows (st, Map.empty) of
            Throw (st', vertices) x \<Rightarrow> Throw (st', found) x
          | Ok (st', vertices) u \<Rightarrow> Ok (st', True) ())"

section \<open>Vocabulary for the statements about the kernel\<close>

text \<open>
  \<open>pass_state k\<close> is the loop state after \<open>k\<close> passes of the loop body, whether
  or not the loop runs that far; \<open>pass_delta k\<close> is the \<open>delta\<close> accumulated by
  pass \<open>k\<close>.
\<close>

definition pass_state ::
  "bool \<Rightarrow> graph \<Rightarrow> (nat \<Rightarrow> fl) \<Rightarrow> (nat \<Rightarrow> fl) \<Rightarrow> (nat \<Rightarrow> fl) \<Rightarrow> fl \<Rightarrow> fl \<Rightarrow> nat \<Rightarrow>
   pr_state" where
  "pass_state directed g rank0 pers weight d epsilon k =
     (loop_body directed g pers weight d ^^ k) (init_state directed g rank0 weight epsilon)"

definition pass_delta ::
  "bool \<Rightarrow> graph \<Rightarrow> (nat \<Rightarrow> fl) \<Rightarrow> (nat \<Rightarrow> fl) \<Rightarrow> (nat \<Rightarrow> fl) \<Rightarrow> fl \<Rightarrow> fl \<Rightarrow> nat \<Rightarrow> fl" where
  "pass_delta directed g rank0 pers weight d epsilon k =
     delta_v (pass_state directed g rank0 pers weight d epsilon k)"

text \<open>
  What pass \<open>k + 1\<close> reads through \<^verbatim>\<open>rank\<close> and what it writes through
  \<^verbatim>\<open>r_temp\<close>.
\<close>

definition current_rank ::
  "bool \<Rightarrow> graph \<Rightarrow> (nat \<Rightarrow> fl) \<Rightarrow> (nat \<Rightarrow> fl) \<Rightarrow> (nat \<Rightarrow> fl) \<Rightarrow> fl \<Rightarrow> fl \<Rightarrow> nat \<Rightarrow> nat \<Rightarrow>
   fl" where
  "current_rank directed g rank0 pers weight d epsilon k =
     mem (pass_state directed g rank0 pers weight d epsilon k)
         (rank_h (pass_state directed g rank0 pers weight d epsilon k))"

definition written_rank ::
  "bool \<Rightarrow> graph \<Rightarrow> (nat \<Rightarrow> fl) \<Rightarrow> (nat \<Rightarrow> fl) \<Rightarrow> (nat \<Rightarrow> fl) \<Rightarrow> fl \<Rightarrow> fl \<Rightarrow> nat \<Rightarrow> nat \<Rightarrow>
   fl" where
  "written_rank directed g rank0 pers weight d epsilon k =
     mem (pass_state directed g rank0 pers weight d epsilon (Suc k))
         (r_temp_h (pass_state directed g rank0 pers weight d epsilon k))"

text \<open>The \<^verbatim>\<open>break\<close> test of line 80, and an exit of the loop after exactly \<open>n\<close> passes.\<close>

definition break_now :: "nat \<Rightarrow> pr_state \<Rightarrow> bool" where
  "break_now max_iter s \<longleftrightarrow> 0 < max_iter \<and> iter_v s = max_iter"

definition exits_after ::
  "bool \<Rightarrow> graph \<Rightarrow> (nat \<Rightarrow> fl) \<Rightarrow> (nat \<Rightarrow> fl) \<Rightarrow> fl \<Rightarrow> fl \<Rightarrow> nat \<Rightarrow> pr_state \<Rightarrow> nat \<Rightarrow>
   bool" where
  "exits_after directed g pers weight d epsilon max_iter s n \<longleftrightarrow>
     (\<forall>j<n. fge (delta_v ((loop_body directed g pers weight d ^^ j) s)) epsilon) \<and>
     (\<forall>j. 0 < j \<and> j < n \<longrightarrow>
          \<not> break_now max_iter ((loop_body directed g pers weight d ^^ j) s)) \<and>
     ((0 < n \<and> break_now max_iter ((loop_body directed g pers weight d ^^ n) s)) \<or>
      \<not> fge (delta_v ((loop_body directed g pers weight d ^^ n) s)) epsilon)"

text \<open>
  The stopping condition in the words of the specification: the delta of pass \<open>n\<close> is
  below \<open>epsilon\<close>, or \<open>n\<close> is the nonzero \<open>max_iter\<close>.
\<close>

definition spec_stops ::
  "bool \<Rightarrow> graph \<Rightarrow> (nat \<Rightarrow> fl) \<Rightarrow> (nat \<Rightarrow> fl) \<Rightarrow> (nat \<Rightarrow> fl) \<Rightarrow> fl \<Rightarrow> fl \<Rightarrow> nat \<Rightarrow> nat \<Rightarrow>
   bool" where
  "spec_stops directed g rank0 pers weight d epsilon max_iter n \<longleftrightarrow>
     flt (pass_delta directed g rank0 pers weight d epsilon n) epsilon \<or>
     (0 < max_iter \<and> n = max_iter)"

text \<open>
  The stopping condition of the code: \<^verbatim>\<open>delta >= epsilon\<close> is also false when
  \<open>delta\<close> is a NaN.
\<close>

definition stops ::
  "bool \<Rightarrow> graph \<Rightarrow> (nat \<Rightarrow> fl) \<Rightarrow> (nat \<Rightarrow> fl) \<Rightarrow> (nat \<Rightarrow> fl) \<Rightarrow> fl \<Rightarrow> fl \<Rightarrow> nat \<Rightarrow> nat \<Rightarrow>
   bool" where
  "stops directed g rank0 pers weight d epsilon max_iter n \<longleftrightarrow>
     flt (pass_delta directed g rank0 pers weight d epsilon n) epsilon \<or>
     pass_delta directed g rank0 pers weight d epsilon n = NaN \<or>
     (0 < max_iter \<and> n = max_iter)"

definition first_stop ::
  "bool \<Rightarrow> graph \<Rightarrow> (nat \<Rightarrow> fl) \<Rightarrow> (nat \<Rightarrow> fl) \<Rightarrow> (nat \<Rightarrow> fl) \<Rightarrow> fl \<Rightarrow> fl \<Rightarrow> nat \<Rightarrow> nat \<Rightarrow>
   bool" where
  "first_stop directed g rank0 pers weight d epsilon max_iter n \<longleftrightarrow>
     1 \<le> n \<and> stops directed g rank0 pers weight d epsilon max_iter n \<and>
     (\<forall>k. 1 \<le> k \<and> k < n \<longrightarrow> \<not> stops directed g rank0 pers weight d epsilon max_iter k)"

text \<open>
  The update rule in the words of the specification. \<open>fsum\<close> is the sum of a list,
  \<open>flow_source\<close> the vertex an edge carries rank from, \<open>spec_flow\<close> the term of one
  edge and \<open>spec_new_rank\<close> the new rank of a vertex, from the current ranks \<open>cur\<close>
  and the degrees \<open>deg\<close>.
\<close>

fun fsum :: "fl list \<Rightarrow> fl" where
  "fsum [] = Fin 0"
| "fsum (x # xs) = fadd x (fsum xs)"

definition flow_source :: "bool \<Rightarrow> edge \<Rightarrow> nat" where
  "flow_source directed e = (if directed then source e else target e)"

definition spec_flow ::
  "bool \<Rightarrow> (nat \<Rightarrow> fl) \<Rightarrow> (nat \<Rightarrow> fl) \<Rightarrow> (nat \<Rightarrow> fl) \<Rightarrow> edge \<Rightarrow> fl" where
  "spec_flow directed cur weight deg e =
     fdiv (fmul (cur (flow_source directed e)) (weight (idx e))) (deg (flow_source directed e))"

definition spec_new_rank ::
  "bool \<Rightarrow> graph \<Rightarrow> (nat \<Rightarrow> fl) \<Rightarrow> (nat \<Rightarrow> fl) \<Rightarrow> fl \<Rightarrow> (nat \<Rightarrow> fl) \<Rightarrow> (nat \<Rightarrow> fl) \<Rightarrow> nat \<Rightarrow>
   fl" where
  "spec_new_rank directed g pers weight d cur deg v =
     fadd (fmul (fsub (Fin 1) d) (pers v))
          (fmul d (fsum (map (spec_flow directed cur weight deg)
                             (in_or_out_edges_range directed v g))))"

text \<open>The invariant of the data model: every edge joins two existing vertices.\<close>

definition wf_graph :: "graph \<Rightarrow> bool" where
  "wf_graph g \<longleftrightarrow>
     list_all (\<lambda>(s, t). s < num_vertices g \<and> t < num_vertices g) (edge_list g)"

text \<open>
  Small inputs: one vertex without edges, two vertices joined by one edge, and the map that
  has the same value everywhere.
\<close>

definition const_map :: "fl \<Rightarrow> nat \<Rightarrow> fl" where
  "const_map x v = x"

definition g_one :: graph where
  "g_one = \<lparr>num_vertices = 1, edge_list = []\<rparr>"

definition g_two :: graph where
  "g_two = \<lparr>num_vertices = 2, edge_list = [(0, 1)]\<rparr>"

section \<open>Vocabulary for the statements about the loaders\<close>

text \<open>
  A two-dimensional array from its rows, the graph without vertices, and the loader states
  over it.
\<close>

definition array_of :: "scalar_type \<Rightarrow> scalar list list \<Rightarrow> ndarray" where
  "array_of ty rows =
     \<lparr>dtype = ty, ndim = 2, shape0 = length rows,
      shape1 = (case rows of [] \<Rightarrow> 0 | r # rs \<Rightarrow> length r),
      elem = (\<lambda>i j. rows ! i ! j)\<rparr>"

definition empty_graph :: graph where
  "empty_graph = \<lparr>num_vertices = 0, edge_list = []\<rparr>"

definition empty_dstate :: "scalar dstate" where
  "empty_dstate = \<lparr>gr = empty_graph, eprops = []\<rparr>"

definition empty_hstate :: "(pyval, string) hstate" where
  "empty_hstate = \<lparr>hgr = empty_graph, heprops = [], vmap = Map.empty\<rparr>"

text \<open>
  The direct loader in the words of the specification. An entry is a vertex index when its
  conversion to \<^verbatim>\<open>size_t\<close> is defined and below \<open>size_max\<close>; \<open>row_pairs\<close> is
  the (source, target) pairs of the rows \<open>rs\<close>, and \<open>spec_grow\<close> the vertex count
  after growing for each pair in turn.
\<close>

definition vertex_index :: "scalar \<Rightarrow> bool" where
  "vertex_index x = (case to_size_t x of None \<Rightarrow> False | Some s \<Rightarrow> s < size_max)"

definition row_pairs :: "ndarray \<Rightarrow> nat list \<Rightarrow> (nat \<times> nat) list" where
  "row_pairs a rs =
     map (\<lambda>r. (the (to_size_t (elem a r 0)), the (to_size_t (elem a r 1)))) rs"

fun spec_grow :: "nat \<Rightarrow> (nat \<times> nat) list \<Rightarrow> nat" where
  "spec_grow n [] = n"
| "spec_grow n ((s, t) # ps) = spec_grow (max n (Suc (max s t))) ps"

text \<open>
  \<open>dstate_le st st'\<close> and \<open>hstate_le st st'\<close>: everything of \<open>st\<close> is still in
  \<open>st'\<close>, its vertices, its edges in their order, the values its edges have in the edge
  property maps and the values its vertices have in the vertex property map.
\<close>

definition dstate_le :: "'p dstate \<Rightarrow> 'p dstate \<Rightarrow> bool" where
  "dstate_le st st' \<longleftrightarrow>
     num_vertices (gr st) \<le> num_vertices (gr st') \<and>
     take (length (edge_list (gr st))) (edge_list (gr st')) = edge_list (gr st) \<and>
     length (eprops st') = length (eprops st) \<and>
     (\<forall>i<length (eprops st). \<forall>k<length (edge_list (gr st)).
        (eprops st' ! i) k = (eprops st ! i) k)"

definition hstate_le :: "('p, 'q) hstate \<Rightarrow> ('p, 'q) hstate \<Rightarrow> bool" where
  "hstate_le st st' \<longleftrightarrow>
     num_vertices (hgr st) \<le> num_vertices (hgr st') \<and>
     take (length (edge_list (hgr st))) (edge_list (hgr st')) = edge_list (hgr st) \<and>
     length (heprops st') = length (heprops st) \<and>
     (\<forall>i<length (heprops st). \<forall>k<length (edge_list (hgr st)).
        (heprops st' ! i) k = (heprops st ! i) k) \<and>
     (\<forall>v<num_vertices (hgr st). vmap st' v = vmap st v)"

text \<open>
  The hashed loader in the words of the specification: the keys in the order in which they
  are first seen, after the keys \<open>seen\<close> already; the table that numbers a list of keys
  from \<open>n0\<close> on; and the keys and the rows of a list of key pairs.
\<close>

fun first_seen :: "'k list \<Rightarrow> 'k list \<Rightarrow> 'k list" where
  "first_seen seen [] = seen"
| "first_seen seen (k # ks) = first_seen (if k \<in> set seen then seen else seen @ [k]) ks"

definition key_table :: "nat \<Rightarrow> 'k list \<Rightarrow> 'k \<rightharpoonup> nat" where
  "key_table n0 ks = map_of (zip ks [n0..<n0 + length ks])"

definition pair_keys :: "(string \<times> string) list \<Rightarrow> string list" where
  "pair_keys ps = concat (map (\<lambda>(a, b). [a, b]) ps)"

definition pair_rows :: "(string \<times> string) list \<Rightarrow> pyval list list" where
  "pair_rows ps = map (\<lambda>(a, b). [PyStr a, PyStr b]) ps"

definition abc_pairs :: "(string \<times> string) list" where
  "abc_pairs = [(''a'', ''b''), (''b'', ''c''), (''a'', ''c'')]"

text \<open>
  The invariant of the hashed loader after the keys \<open>seen\<close>, in a graph that had
  \<open>n0\<close> vertices and the vertex property map \<open>vm0\<close> at the call.
\<close>

definition hinv ::
  "nat \<Rightarrow> (nat \<rightharpoonup> 'q) \<Rightarrow> (string \<Rightarrow> 'q option) \<Rightarrow> string list \<Rightarrow>
   ('p, 'q) hstate \<times> (string \<rightharpoonup> nat) \<Rightarrow> bool" where
  "hinv n0 vm0 cast seen c \<longleftrightarrow>
     distinct seen \<and> snd c = key_table n0 seen \<and>
     num_vertices (hgr (fst c)) = n0 + length seen \<and>
     (\<forall>i<length seen. vmap (fst c) (n0 + i) = cast (seen ! i)) \<and>
     (\<forall>v. v < n0 \<or> n0 + length seen \<le> v \<longrightarrow> vmap (fst c) v = vm0 v)"

section \<open>Lemmas about the kernel\<close>

lemma iter_loop_body: "iter_v (loop_body directed g pers weight d s) = iter_v s + 1"
  by (simp add: loop_body_def split: prod.splits)

lemma rank_h_loop_body: "rank_h (loop_body directed g pers weight d s) = r_temp_h s"
  by (simp add: loop_body_def split: prod.splits)

lemma r_temp_h_loop_body: "r_temp_h (loop_body directed g pers weight d s) = rank_h s"
  by (simp add: loop_body_def split: prod.splits)

lemma iter_funpow: "iter_v ((loop_body directed g pers weight d ^^ k) s) = iter_v s + k"
  by (induction k) (simp_all add: iter_loop_body)

lemma exits_after_0: "\<not> fge (delta_v s) epsilon \<Longrightarrow> exits_after directed g pers weight d epsilon max_iter s 0"
  by (simp add: exits_after_def)

lemma exits_after_1:
  "fge (delta_v s) epsilon \<Longrightarrow> break_now max_iter (loop_body directed g pers weight d s) \<Longrightarrow>
   exits_after directed g pers weight d epsilon max_iter s (Suc 0)"
  by (simp add: exits_after_def)

lemma exits_after_Suc:
  assumes c: "fge (delta_v s) epsilon"
    and b: "\<not> break_now max_iter (loop_body directed g pers weight d s)"
    and e: "exits_after directed g pers weight d epsilon max_iter (loop_body directed g pers weight d s) n"
  shows "exits_after directed g pers weight d epsilon max_iter s (Suc n)"
proof -
  let ?B = "loop_body directed g pers weight d"
  have sh: "\<And>j. (?B ^^ Suc j) s = (?B ^^ j) (?B s)" by (simp add: funpow_swap1)
  have 1: "\<forall>j<Suc n. fge (delta_v ((?B ^^ j) s)) epsilon"
  proof (intro allI impI)
    fix j assume "j < Suc n"
    show "fge (delta_v ((?B ^^ j) s)) epsilon"
    proof (cases j)
      case 0 with c show ?thesis by simp
    next
      case (Suc i)
      with \<open>j < Suc n\<close> have "i < n" by simp
      with e have "fge (delta_v ((?B ^^ i) (?B s))) epsilon" by (simp add: exits_after_def)
      with Suc show ?thesis by (simp add: funpow_swap1)
    qed
  qed
  have 2: "\<forall>j. 0 < j \<and> j < Suc n \<longrightarrow> \<not> break_now max_iter ((?B ^^ j) s)"
  proof (intro allI impI)
    fix j assume j: "0 < j \<and> j < Suc n"
    then obtain i where i: "j = Suc i" by (cases j) auto
    show "\<not> break_now max_iter ((?B ^^ j) s)"
    proof (cases i)
      case 0 with b i show ?thesis by simp
    next
      case (Suc k)
      with i j have "0 < i \<and> i < n" by simp
      with e have "\<not> break_now max_iter ((?B ^^ i) (?B s))" by (simp add: exits_after_def)
      with i show ?thesis by (simp add: funpow_swap1)
    qed
  qed
  have 3: "(0 < Suc n \<and> break_now max_iter ((?B ^^ Suc n) s)) \<or>
           \<not> fge (delta_v ((?B ^^ Suc n) s)) epsilon"
  proof (cases n)
    case 0
    with e have "\<not> fge (delta_v (?B s)) epsilon" by (simp add: exits_after_def)
    with 0 show ?thesis by simp
  next
    case (Suc k)
    from e have "(0 < n \<and> break_now max_iter ((?B ^^ n) (?B s))) \<or>
           \<not> fge (delta_v ((?B ^^ n) (?B s))) epsilon" by (simp add: exits_after_def)
    then show ?thesis by (auto simp add: funpow_swap1)
  qed
  from 1 2 3 show ?thesis unfolding exits_after_def by blast
qed

lemma while_loop_Some_exits:
  assumes "while_loop directed g pers weight d epsilon max_iter s = Some y"
  shows "\<exists>n. y = (loop_body directed g pers weight d ^^ n) s \<and>
       exits_after directed g pers weight d epsilon max_iter s n"
proof (rule while_loop.raw_induct [where P = "\<lambda>directed g pers weight d epsilon max_iter s y.
     \<exists>n. y = (loop_body directed g pers weight d ^^ n) s \<and>
       exits_after directed g pers weight d epsilon max_iter s n", OF _ assms], goal_cases)
  case (1 f dr gr pe we da ep mi st r)
  note IH = 1(1) and eq = 1(2)
  let ?B = "loop_body dr gr pe we da"
  show ?case
  proof (cases "fge (delta_v st) ep")
    case False
    with eq have "r = st" by simp
    with False exits_after_0 [of st ep] show ?thesis
      by (intro exI [of _ 0]) simp
  next
    case c: True
    show ?thesis
    proof (cases "break_now mi (?B st)")
      case True
      with c eq have "r = ?B st" by (simp add: Let_def break_now_def)
      with c True exits_after_1 show ?thesis
        by (intro exI [of _ "Suc 0"]) simp
    next
      case False
      with c eq have "f dr gr pe we da ep mi (?B st) = Some r"
        by (auto simp add: Let_def break_now_def)
      from IH [OF this] obtain n where n: "r = (?B ^^ n) (?B st)"
        "exits_after dr gr pe we da ep mi (?B st) n" by blast
      from n(1) have "r = (?B ^^ Suc n) st" by (simp add: funpow_swap1)
      with exits_after_Suc [OF c False n(2)] show ?thesis by blast
    qed
  qed
qed

lemma exits_after_while_loop:
  assumes "exits_after directed g pers weight d epsilon max_iter s n"
  shows "while_loop directed g pers weight d epsilon max_iter s =
         Some ((loop_body directed g pers weight d ^^ n) s)"
  using assms
proof (induction n arbitrary: s)
  case 0
  then have "\<not> fge (delta_v s) epsilon" by (simp add: exits_after_def)
  then show ?case by (subst while_loop.simps) simp
next
  case (Suc n)
  let ?B = "loop_body directed g pers weight d"
  have sh: "\<And>j. (?B ^^ Suc j) s = (?B ^^ j) (?B s)" by (simp add: funpow_swap1)
  from Suc.prems have c: "fge (delta_v s) epsilon"
    unfolding exits_after_def by (metis funpow_0 zero_less_Suc)
  show ?case
  proof (cases "break_now max_iter (?B s)")
    case True
    have "n = 0"
    proof (rule ccontr)
      assume "n \<noteq> 0"
      then have "0 < Suc 0 \<and> Suc 0 < Suc n" by simp
      with Suc.prems have "\<not> break_now max_iter ((?B ^^ Suc 0) s)"
        unfolding exits_after_def by blast
      with True show False by simp
    qed
    with c True show ?thesis
      by (subst while_loop.simps) (simp add: Let_def break_now_def)
  next
    case False
    have "exits_after directed g pers weight d epsilon max_iter (?B s) n"
      unfolding exits_after_def
    proof (intro conjI allI impI)
      fix j assume "j < n"
      then have "Suc j < Suc n" by simp
      with Suc.prems have "fge (delta_v ((?B ^^ Suc j) s)) epsilon"
        unfolding exits_after_def by blast
      then show "fge (delta_v ((?B ^^ j) (?B s))) epsilon" by (simp add: funpow_swap1)
    next
      fix j assume "0 < j \<and> j < n"
      then have "0 < Suc j \<and> Suc j < Suc n" by simp
      with Suc.prems have "\<not> break_now max_iter ((?B ^^ Suc j) s)"
        unfolding exits_after_def by blast
      then show "\<not> break_now max_iter ((?B ^^ j) (?B s))" by (simp add: funpow_swap1)
    next
      from Suc.prems have "(0 < Suc n \<and> break_now max_iter ((?B ^^ Suc n) s)) \<or>
           \<not> fge (delta_v ((?B ^^ Suc n) s)) epsilon"
        unfolding exits_after_def by blast
      then have "break_now max_iter ((?B ^^ n) (?B s)) \<or>
           \<not> fge (delta_v ((?B ^^ n) (?B s))) epsilon" by (auto simp add: funpow_swap1)
      moreover have "n = 0 \<Longrightarrow> \<not> break_now max_iter ((?B ^^ n) (?B s))"
        using False by simp
      ultimately show "(0 < n \<and> break_now max_iter ((?B ^^ n) (?B s))) \<or>
           \<not> fge (delta_v ((?B ^^ n) (?B s))) epsilon" by blast
    qed
    from Suc.IH [OF this] have "while_loop directed g pers weight d epsilon max_iter (?B s) =
        Some ((?B ^^ Suc n) s)" by (simp add: funpow_swap1)
    with c False show ?thesis
      by (subst while_loop.simps) (auto simp add: Let_def break_now_def)
  qed
qed

lemma fadd_commute: "fadd x y = fadd y x"
  by (cases x; cases y) simp_all

lemma fadd_assoc: "fadd (fadd x y) z = fadd x (fadd y z)"
  by (cases x; cases y; cases z) simp_all

lemma fadd_zero_left: "fadd (Fin 0) x = x"
  by (cases x) simp_all

lemma fadd_zero_right: "fadd x (Fin 0) = x"
  by (cases x) simp_all

lemma flt_pos_fadd: "flt (Fin 0) x \<Longrightarrow> flt (Fin 0) y \<Longrightarrow> flt (Fin 0) (fadd x y)"
  by (cases x; cases y) simp_all

lemma fge_eps_plus_one: "flt (Fin 0) epsilon \<Longrightarrow> fge (fadd epsilon (Fin 1)) epsilon"
  by (cases epsilon) simp_all

lemma not_fge_iff_flt: "x \<noteq> NaN \<Longrightarrow> y \<noteq> NaN \<Longrightarrow> \<not> fge x y \<longleftrightarrow> flt x y"
  by (cases x; cases y) auto

lemma foldl_fadd_fsum: "foldl fadd a xs = fadd a (fsum xs)"
  by (induction xs arbitrary: a) (simp_all add: fadd_zero_right fadd_assoc)

lemma fsum_pos: "xs \<noteq> [] \<Longrightarrow> \<forall>x\<in>set xs. flt (Fin 0) x \<Longrightarrow> flt (Fin 0) (fsum xs)"
proof (induction xs)
  case Nil
  then show ?case by simp
next
  case (Cons x xs)
  show ?case
  proof (cases xs)
    case Nil
    with Cons.prems show ?thesis by (simp add: fadd_zero_right)
  next
    case (Cons y ys)
    with Cons.IH Cons.prems have "flt (Fin 0) (fsum xs)" by simp
    with Cons.prems show ?thesis by (simp add: flt_pos_fadd)
  qed
qed

lemma edge_loop_fsum:
  "edge_loop directed st rank weight es r =
     fadd r (fsum (map (spec_flow directed (st rank) weight (st Deg)) es))"
  by (induction es arbitrary: r)
     (simp_all add: fadd_zero_right fadd_assoc spec_flow_def flow_source_def get_def Let_def)

lemma vertex_loop_mem:
  assumes "rt \<noteq> rk" "rt \<noteq> Deg"
  shows "fst (vertex_loop directed g pers weight d rk rt vs st delta) b v =
         (if b = rt \<and> v \<in> set vs
          then spec_new_rank directed g pers weight d (st rk) (st Deg) v
          else st b v)"
  using assms
proof (induction vs arbitrary: st delta)
  case Nil
  show ?case by simp
next
  case (Cons u us)
  let ?x = "spec_new_rank directed g pers weight d (st rk) (st Deg) u"
  let ?st = "put st rt u ?x"
  have rk: "?st rk = st rk" and dg: "?st Deg = st Deg"
    using Cons.prems by (simp_all add: put_def)
  have step: "vertex_loop directed g pers weight d rk rt (u # us) st delta =
        vertex_loop directed g pers weight d rk rt us ?st
          (fadd delta (fabs (fsub (get ?st rt u) (get ?st rk u))))"
    by (simp add: Let_def edge_loop_fsum spec_new_rank_def fadd_zero_left)
  show ?case
    unfolding step Cons.IH [OF Cons.prems] rk dg
    by (auto simp add: put_def)
qed

lemma vertex_loop_delta:
  assumes "rt \<noteq> rk" "rt \<noteq> Deg"
  shows "snd (vertex_loop directed g pers weight d rk rt vs st delta) =
         fadd delta (fsum (map (\<lambda>v. fabs (fsub (spec_new_rank directed g pers weight d (st rk) (st Deg) v)
                                               (st rk v))) vs))"
  using assms
proof (induction vs arbitrary: st delta)
  case Nil
  show ?case by (simp add: fadd_zero_right)
next
  case (Cons u us)
  let ?x = "spec_new_rank directed g pers weight d (st rk) (st Deg) u"
  let ?st = "put st rt u ?x"
  have rk: "?st rk = st rk" and dg: "?st Deg = st Deg"
    using Cons.prems by (simp_all add: put_def)
  have gt: "get ?st rt u = ?x" and gk: "get ?st rk u = st rk u"
    using Cons.prems by (simp_all add: put_def get_def)
  have step: "vertex_loop directed g pers weight d rk rt (u # us) st delta =
        vertex_loop directed g pers weight d rk rt us ?st
          (fadd delta (fabs (fsub (get ?st rt u) (get ?st rk u))))"
    by (simp add: Let_def edge_loop_fsum spec_new_rank_def fadd_zero_left)
  show ?case
    unfolding step Cons.IH [OF Cons.prems] rk dg gt gk
    by (simp add: fadd_assoc)
qed

lemma init_degs_mem:
  "init_degs directed g weight vs st b v =
     (if b = Deg \<and> v \<in> set vs then out_degreeS directed v g weight else st b v)"
  by (induction vs arbitrary: st) (auto simp add: put_def)

lemma mem_init_state:
  "mem (init_state directed g rank0 weight epsilon) b v =
     (case b of Caller \<Rightarrow> rank0 v | Scratch \<Rightarrow> Fin 0
      | Deg \<Rightarrow> if v < num_vertices g then out_degreeS directed v g weight else Fin 0)"
  by (cases b) (simp_all add: init_state_def init_degs_mem)

lemma loop_body_mem:
  assumes "r_temp_h s \<noteq> rank_h s" "r_temp_h s \<noteq> Deg"
  shows "mem (loop_body directed g pers weight d s) b v =
     (if b = r_temp_h s \<and> v < num_vertices g
      then spec_new_rank directed g pers weight d (mem s (rank_h s)) (mem s Deg) v
      else mem s b v)"
proof -
  have "mem (loop_body directed g pers weight d s) =
        fst (vertex_loop directed g pers weight d (rank_h s) (r_temp_h s)
              [0..<num_vertices g] (mem s) (Fin 0))"
    by (simp add: loop_body_def split: prod.splits)
  then show ?thesis by (simp add: vertex_loop_mem [OF assms])
qed

lemma loop_body_delta:
  assumes "r_temp_h s \<noteq> rank_h s" "r_temp_h s \<noteq> Deg"
  shows "delta_v (loop_body directed g pers weight d s) =
     fsum (map (\<lambda>v. fabs (fsub (spec_new_rank directed g pers weight d (mem s (rank_h s)) (mem s Deg) v)
                                 (mem s (rank_h s) v))) [0..<num_vertices g])"
proof -
  have "delta_v (loop_body directed g pers weight d s) =
        snd (vertex_loop directed g pers weight d (rank_h s) (r_temp_h s)
              [0..<num_vertices g] (mem s) (Fin 0))"
    by (simp add: loop_body_def split: prod.splits)
  then show ?thesis by (simp add: vertex_loop_delta [OF assms] fadd_zero_left)
qed

lemma pass_state_Suc:
  "pass_state directed g rank0 pers weight d epsilon (Suc k) =
     loop_body directed g pers weight d (pass_state directed g rank0 pers weight d epsilon k)"
  by (simp add: pass_state_def)

lemma pass_state_handles:
  "rank_h (pass_state directed g rank0 pers weight d epsilon k) = (if even k then Caller else Scratch) \<and>
   r_temp_h (pass_state directed g rank0 pers weight d epsilon k) = (if even k then Scratch else Caller)"
proof (induction k)
  case 0
  show ?case by (simp add: pass_state_def init_state_def)
next
  case (Suc k)
  then show ?case
    by (simp add: pass_state_Suc rank_h_loop_body r_temp_h_loop_body)
qed

lemma pass_state_distinct:
  "r_temp_h (pass_state directed g rank0 pers weight d epsilon k) \<noteq>
     rank_h (pass_state directed g rank0 pers weight d epsilon k)"
  "r_temp_h (pass_state directed g rank0 pers weight d epsilon k) \<noteq> Deg"
  "rank_h (pass_state directed g rank0 pers weight d epsilon k) \<noteq> Deg"
  by (simp_all add: pass_state_handles)

lemma pass_state_iter: "iter_v (pass_state directed g rank0 pers weight d epsilon k) = k"
  by (simp add: pass_state_def iter_funpow init_state_def)

lemma pass_state_deg:
  "mem (pass_state directed g rank0 pers weight d epsilon k) Deg v =
     (if v < num_vertices g then out_degreeS directed v g weight else Fin 0)"
proof (induction k)
  case 0
  show ?case by (simp add: pass_state_def mem_init_state)
next
  case (Suc k)
  then show ?case
    using pass_state_distinct(2) [of directed g rank0 pers weight d epsilon k]
    by (simp add: pass_state_Suc loop_body_mem [OF pass_state_distinct(1,2)])
qed

lemma all_edges_idx: "e \<in> set (all_edges g) \<Longrightarrow> idx e < length (edge_list g)"
  by (auto simp add: all_edges_def in_set_enumerate_eq)

lemma all_edges_wf:
  "wf_graph g \<Longrightarrow> e \<in> set (all_edges g) \<Longrightarrow> source e < num_vertices g \<and> target e < num_vertices g"
  by (auto simp add: all_edges_def wf_graph_def in_set_enumerate_eq list_all_length split: prod.splits)

lemma flow_source_lt:
  assumes "wf_graph g" "v < num_vertices g" "e \<in> set (in_or_out_edges_range directed v g)"
  shows "flow_source directed e < num_vertices g"
  using assms all_edges_wf [OF assms(1)]
  by (auto simp add: in_or_out_edges_range_def in_edges_range_def out_edges_range_def
      flow_source_def split: if_splits)

lemma out_edges_of_flow_source:
  assumes "e \<in> set (in_or_out_edges_range directed v g)"
  shows "out_edges_range directed (flow_source directed e) g \<noteq> []"
  using assms
  by (auto simp add: in_or_out_edges_range_def in_edges_range_def out_edges_range_def
      flow_source_def filter_empty_conv split: if_splits)

lemma out_edges_idx:
  "e \<in> set (out_edges_range directed v g) \<Longrightarrow> idx e < length (edge_list g)"
  by (auto simp add: out_edges_range_def all_edges_idx split: if_splits)

lemma out_degreeS_pos:
  assumes "\<forall>i<length (edge_list g). flt (Fin 0) (weight i)"
    and "out_edges_range directed v g \<noteq> []"
  shows "flt (Fin 0) (out_degreeS directed v g weight)"
  unfolding out_degreeS_def foldl_fadd_fsum fadd_zero_left
  using assms by (intro fsum_pos) (auto simp add: out_edges_idx)

lemma iter_fixup: "iter_v (fixup g s) = iter_v s"
  by (simp add: fixup_def)

lemma not_fge_pos: "flt (Fin 0) y \<Longrightarrow> \<not> fge x y \<longleftrightarrow> flt x y \<or> x = NaN"
  by (cases x; cases y) auto

lemma stops_iff:
  assumes "flt (Fin 0) epsilon"
  shows "stops directed g rank0 pers weight d epsilon max_iter n \<longleftrightarrow>
         \<not> fge (pass_delta directed g rank0 pers weight d epsilon n) epsilon \<or>
         (0 < max_iter \<and> n = max_iter)"
  by (auto simp add: stops_def not_fge_pos [OF assms])

lemma exits_after_init_iff:
  assumes eps: "flt (Fin 0) epsilon"
  shows "exits_after directed g pers weight d epsilon max_iter
           (init_state directed g rank0 weight epsilon) n \<longleftrightarrow>
         first_stop directed g rank0 pers weight d epsilon max_iter n"
proof -
  let ?st = "\<lambda>j. (loop_body directed g pers weight d ^^ j) (init_state directed g rank0 weight epsilon)"
  have st: "\<And>j. ?st j = pass_state directed g rank0 pers weight d epsilon j"
    by (simp add: pass_state_def)
  have d0: "fge (delta_v (?st 0)) epsilon"
    using fge_eps_plus_one [OF eps] by (simp add: init_state_def)
  have brk: "\<And>j. break_now max_iter (?st j) \<longleftrightarrow> 0 < max_iter \<and> j = max_iter"
    unfolding st by (simp add: break_now_def pass_state_iter)
  have dl: "\<And>j. delta_v (?st j) = pass_delta directed g rank0 pers weight d epsilon j"
    unfolding st by (simp add: pass_delta_def)
  show ?thesis
  proof
    assume e: "exits_after directed g pers weight d epsilon max_iter
           (init_state directed g rank0 weight epsilon) n"
    have n: "1 \<le> n"
    proof (rule ccontr)
      assume "\<not> 1 \<le> n"
      then have "n = 0" by simp
      with e d0 show False by (simp add: exits_after_def)
    qed
    from e have s: "stops directed g rank0 pers weight d epsilon max_iter n"
      unfolding exits_after_def stops_iff [OF eps] brk dl by blast
    have "\<not> stops directed g rank0 pers weight d epsilon max_iter k" if "1 \<le> k \<and> k < n" for k
    proof -
      from that have "k < n" "0 < k \<and> k < n" by simp_all
      with e show ?thesis
        unfolding exits_after_def stops_iff [OF eps] brk dl by blast
    qed
    with n s show "first_stop directed g rank0 pers weight d epsilon max_iter n"
      by (simp add: first_stop_def)
  next
    assume f: "first_stop directed g rank0 pers weight d epsilon max_iter n"
    have 1: "fge (delta_v (?st j)) epsilon" if "j < n" for j
    proof (cases j)
      case 0 with d0 show ?thesis by simp
    next
      case (Suc i)
      with that f have "\<not> stops directed g rank0 pers weight d epsilon max_iter j"
        by (simp add: first_stop_def)
      then show ?thesis unfolding stops_iff [OF eps] dl by simp
    qed
    have 2: "\<not> break_now max_iter (?st j)" if "0 < j \<and> j < n" for j
    proof -
      from that f have "\<not> stops directed g rank0 pers weight d epsilon max_iter j"
        by (simp add: first_stop_def)
      then show ?thesis unfolding stops_iff [OF eps] brk by simp
    qed
    from f have 3: "(0 < n \<and> break_now max_iter (?st n)) \<or> \<not> fge (delta_v (?st n)) epsilon"
      unfolding first_stop_def stops_iff [OF eps] brk dl by auto
    from 1 2 3 show "exits_after directed g pers weight d epsilon max_iter
           (init_state directed g rank0 weight epsilon) n"
      unfolding exits_after_def by blast
  qed
qed

lemma get_pagerank_iter_iff:
  assumes eps: "flt (Fin 0) epsilon"
  shows "(\<exists>s. get_pagerank directed g rank0 pers weight d epsilon max_iter = Some s \<and> iter_v s = n) \<longleftrightarrow>
         first_stop directed g rank0 pers weight d epsilon max_iter n"
proof
  assume "\<exists>s. get_pagerank directed g rank0 pers weight d epsilon max_iter = Some s \<and> iter_v s = n"
  then obtain s where s: "get_pagerank directed g rank0 pers weight d epsilon max_iter = Some s"
    and n: "iter_v s = n" by blast
  from s obtain s0 where s0: "while_loop directed g pers weight d epsilon max_iter
       (init_state directed g rank0 weight epsilon) = Some s0" and f: "s = fixup g s0"
    by (auto simp add: get_pagerank_def split: option.splits)
  from while_loop_Some_exits [OF s0] obtain m where
    m: "s0 = (loop_body directed g pers weight d ^^ m) (init_state directed g rank0 weight epsilon)"
    and e: "exits_after directed g pers weight d epsilon max_iter
              (init_state directed g rank0 weight epsilon) m" by blast
  from m have "iter_v s0 = m" by (simp add: iter_funpow init_state_def)
  with f n have "m = n" by (simp add: iter_fixup)
  with e show "first_stop directed g rank0 pers weight d epsilon max_iter n"
    by (simp add: exits_after_init_iff [OF eps])
next
  assume "first_stop directed g rank0 pers weight d epsilon max_iter n"
  then have "exits_after directed g pers weight d epsilon max_iter
              (init_state directed g rank0 weight epsilon) n"
    by (simp add: exits_after_init_iff [OF eps])
  from exits_after_while_loop [OF this]
  show "\<exists>s. get_pagerank directed g rank0 pers weight d epsilon max_iter = Some s \<and> iter_v s = n"
    by (simp add: get_pagerank_def iter_fixup iter_funpow init_state_def)
qed

lemma first_stop_exists:
  assumes "0 < max_iter"
  shows "\<exists>n. n \<le> max_iter \<and> first_stop directed g rank0 pers weight d epsilon max_iter n"
proof -
  let ?P = "\<lambda>n. 1 \<le> n \<and> stops directed g rank0 pers weight d epsilon max_iter n"
  have P: "?P max_iter" using assms by (simp add: stops_def)
  define n where "n = (LEAST n. ?P n)"
  have "?P n" unfolding n_def using P by (rule LeastI)
  moreover have "n \<le> max_iter" unfolding n_def using P by (rule Least_le)
  moreover have "\<not> stops directed g rank0 pers weight d epsilon max_iter k" if "1 \<le> k \<and> k < n" for k
  proof
    assume "stops directed g rank0 pers weight d epsilon max_iter k"
    with that have "?P k" by simp
    then have "n \<le> k" unfolding n_def by (rule Least_le)
    with that show False by simp
  qed
  ultimately show ?thesis unfolding first_stop_def by blast
qed

lemma spec_new_rank_cong:
  assumes "\<And>e. e \<in> set (in_or_out_edges_range directed v g) \<Longrightarrow>
             deg (flow_source directed e) = deg' (flow_source directed e)"
  shows "spec_new_rank directed g pers weight d cur deg v =
         spec_new_rank directed g pers weight d cur deg' v"
proof -
  have "map (spec_flow directed cur weight deg) (in_or_out_edges_range directed v g) =
        map (spec_flow directed cur weight deg') (in_or_out_edges_range directed v g)"
    using assms by (intro map_cong) (simp_all add: spec_flow_def)
  then show ?thesis unfolding spec_new_rank_def by (rule arg_cong)
qed

section \<open>The claims about the kernel\<close>

lemma run_g_one:
  "map_option iter_v
     (get_pagerank True g_one (const_map (Fin 1)) (const_map (Fin 1)) (const_map (Fin 1)) (Fin (1/2)) (Fin (1/10)) 0) =
   Some 2"
  by code_simp

lemma run_g_one_converged:
  "map_option iter_v
     (get_pagerank True g_one (const_map (Fin (1/2))) (const_map (Fin 1)) (const_map (Fin 1)) (Fin (1/2)) (Fin (1/10)) 0) =
   Some 1"
  by code_simp

lemma stops_g_one:
  "stops True g_one (const_map (Fin 1)) (const_map (Fin 1)) (const_map (Fin 1)) (Fin (1/2)) (Fin (1/10)) 0 2"
  "\<not> stops True g_one (const_map (Fin 1)) (const_map (Fin 1)) (const_map (Fin 1)) (Fin (1/2)) (Fin (1/10)) 0 1"
  by code_simp+

lemma first_stop_g_one:
  "first_stop True g_one (const_map (Fin 1)) (const_map (Fin 1)) (const_map (Fin 1)) (Fin (1/2)) (Fin (1/10)) 0 2"
proof -
  have "\<not> stops True g_one (const_map (Fin 1)) (const_map (Fin 1)) (const_map (Fin 1)) (Fin (1/2)) (Fin (1/10)) 0 k"
    if "1 \<le> k \<and> k < 2" for k
  proof -
    from that have "k = 1" by simp
    with stops_g_one(2) show ?thesis by simp
  qed
  with stops_g_one(1) show ?thesis
    unfolding first_stop_def by simp
qed

text \<open>
  What a run that returns after an odd number of passes leaves in the caller's rank vector:
  the ranks that were current before its last pass. The last pass wrote the scratch vector,
  and the copy after the loop writes the scratch vector again.
\<close>

lemma copy_loop_mem:
  "b \<noteq> rk \<Longrightarrow> copy_loop rk rt vs st b = st b"
  by (induction vs arbitrary: st) (simp_all add: put_def)

lemma odd_exit_caller_is_stale:
  assumes run: "get_pagerank directed g rank0 pers weight d epsilon max_iter = Some s"
    and odd: "odd (iter_v s)"
  shows "mem s Caller v =
         current_rank directed g rank0 pers weight d epsilon (iter_v s - 1) v"
proof -
  from run obtain s0 where s0: "while_loop directed g pers weight d epsilon max_iter
       (init_state directed g rank0 weight epsilon) = Some s0" and f: "s = fixup g s0"
    by (auto simp add: get_pagerank_def split: option.splits)
  from while_loop_Some_exits [OF s0] obtain n where
    "s0 = (loop_body directed g pers weight d ^^ n) (init_state directed g rank0 weight epsilon)"
    by blast
  then have p: "s0 = pass_state directed g rank0 pers weight d epsilon n"
    by (simp add: pass_state_def)
  then have n: "iter_v s = n" using f by (simp add: iter_fixup pass_state_iter)
  with odd obtain k where k: "n = Suc k" "even k" by (cases n) auto
  let ?sk = "pass_state directed g rank0 pers weight d epsilon k"
  have hk: "rank_h ?sk = Caller" "r_temp_h ?sk = Scratch"
    using k(2) pass_state_handles [of directed g rank0 pers weight d epsilon k] by simp_all
  have hn: "rank_h s0 = Scratch"
    using k pass_state_handles [of directed g rank0 pers weight d epsilon n] p by simp
  have 1: "mem s Caller v = mem s0 Caller v"
    using f hn by (simp add: fixup_def copy_loop_mem)
  have 2: "mem s0 Caller v = mem ?sk Caller v"
    unfolding p k(1) pass_state_Suc
    using hk by (simp add: loop_body_mem [OF pass_state_distinct(1,2)])
  from 1 2 show ?thesis using hk n k by (simp add: current_rank_def)
qed

text \<open>
  Claim C1, at the input where it fails. One vertex without edges, rank 1, personalization
  1, damping 1/2, epsilon 1/10 and \<open>max_iter = 1\<close>: the single pass writes the new rank
  1/2 through \<^verbatim>\<open>r_temp\<close>, the loop exits with \<open>iter = 1\<close>, and after the call the
  caller's rank vector still holds the initial rank 1. After the swap \<^verbatim>\<open>rank\<close> is the
  handle of the scratch vector, so the copy \<^verbatim>\<open>put(rank, v, get(r_temp, v))\<close> goes
  from the caller's vector to the scratch vector.
\<close>

theorem pagerank_odd_exit_leaves_stale_ranks:
  "map_option (\<lambda>s. (iter_v s, mem s Caller 0, mem s Scratch 0))
     (get_pagerank True g_one (const_map (Fin 1)) (const_map (Fin 1)) (const_map (Fin 1)) (Fin (1/2)) (Fin (1/10)) 1) =
     Some (1, Fin 1, Fin 1) \<and>
   written_rank True g_one (const_map (Fin 1)) (const_map (Fin 1)) (const_map (Fin 1)) (Fin (1/2)) (Fin (1/10)) 0 0 =
     Fin (1/2)"
  by code_simp

text \<open>
  Claim C2 as stated fails: the division of line 71 has no test of the degree. In the graph
  with the single edge 0 -> 1 of weight 0, vertex 0 has the precomputed degree 0 and is the
  flow source of the only edge considered for vertex 1; the division by that degree is
  performed, the sum of vertex 1 is a NaN and not 0, and the rank written for vertex 1 is
  a NaN.
\<close>

theorem zero_degree_division_counterexample:
  "get (mem (init_state True g_two (const_map (Fin 1)) (const_map (Fin 0)) (Fin (1/10)))) Deg 0 = Fin 0 \<and>
   in_or_out_edges_range True 1 g_two = [\<lparr>source = 0, target = 1, idx = 0\<rparr>] \<and>
   edge_loop True (mem (init_state True g_two (const_map (Fin 1)) (const_map (Fin 0)) (Fin (1/10)))) Caller
     (const_map (Fin 0)) (in_or_out_edges_range True 1 g_two) (Fin 0) = NaN \<and>
   written_rank True g_two (const_map (Fin 1)) (const_map (Fin 1)) (const_map (Fin 0)) (Fin (1/2)) (Fin (1/10)) 0 1 =
     NaN"
  by code_simp

text \<open>
  Claim C2, amended: when every edge weight is strictly positive (as the default unit weight
  is), the divisor of every division of every pass, the precomputed degree of the flow
  source of an edge considered for a vertex, is strictly positive. So a vertex of degree
  zero is the flow source of no edge, and no division by zero occurs.
\<close>

theorem positive_weights_positive_degree:
  assumes wf: "wf_graph g"
    and w: "\<forall>i<length (edge_list g). flt (Fin 0) (weight i)"
    and v: "v < num_vertices g"
    and e: "e \<in> set (in_or_out_edges_range directed v g)"
  shows "flt (Fin 0)
           (get (mem (pass_state directed g rank0 pers weight d epsilon k)) Deg
                (if directed then source e else target e))"
proof -
  have "flow_source directed e < num_vertices g"
    by (rule flow_source_lt [OF wf v e])
  moreover have "flt (Fin 0) (out_degreeS directed (flow_source directed e) g weight)"
    by (rule out_degreeS_pos [OF w out_edges_of_flow_source [OF e]])
  ultimately show ?thesis
    by (simp add: get_def pass_state_deg flow_source_def)
qed

theorem positive_weights_positive_degree_witness:
  "wf_graph g_two \<and>
   \<lparr>source = 0, target = 1, idx = 0\<rparr> \<in> set (in_or_out_edges_range True 1 g_two) \<and>
   flt (Fin 0)
     (get (mem (pass_state True g_two (const_map (Fin 1)) (const_map (Fin 1)) (const_map (Fin 1)) (Fin (1/2))
                  (Fin (1/10)) 1)) Deg 0)"
proof -
  have wf: "wf_graph g_two"
    by (simp add: wf_graph_def g_two_def)
  have w: "\<forall>i<length (edge_list g_two). flt (Fin 0) (const_map (Fin 1) i)"
    by (simp add: const_map_def)
  have v: "1 < num_vertices g_two"
    by (simp add: g_two_def)
  have e: "\<lparr>source = 0, target = 1, idx = 0\<rparr> \<in> set (in_or_out_edges_range True 1 g_two)"
    by (simp add: in_or_out_edges_range_def in_edges_range_def all_edges_def g_two_def)
  from positive_weights_positive_degree [OF wf w v e, of "const_map (Fin 1)" "const_map (Fin 1)" "Fin (1/2)" "Fin (1/10)" 1]
  have "flt (Fin 0)
     (get (mem (pass_state True g_two (const_map (Fin 1)) (const_map (Fin 1)) (const_map (Fin 1)) (Fin (1/2))
                  (Fin (1/10)) 1)) Deg 0)"
    by simp
  with wf e show ?thesis by blast
qed

text \<open>
  Claim C3 as stated fails when the delta of a pass is a NaN: \<^verbatim>\<open>delta >= epsilon\<close> is
  then false and the loop exits, although the delta is not below epsilon. With damping 1/2,
  epsilon 1/10, \<open>max_iter = 0\<close> and the edge 0 -> 1 of weight 0, the run returns after one
  pass, which is not a stopping point in the words of the specification.
\<close>

theorem nan_delta_exit_counterexample:
  "fge (Fin (1/2)) (Fin 0) \<and> flt (Fin (1/2)) (Fin 1) \<and> flt (Fin 0) (Fin (1/10)) \<and>
   map_option iter_v
     (get_pagerank True g_two (const_map (Fin 1)) (const_map (Fin 1)) (const_map (Fin 0)) (Fin (1/2)) (Fin (1/10)) 0) =
     Some 1 \<and>
   \<not> spec_stops True g_two (const_map (Fin 1)) (const_map (Fin 1)) (const_map (Fin 0)) (Fin (1/2)) (Fin (1/10)) 0 1"
  by code_simp

text \<open>
  Claim C3, amended: for every epsilon > 0 (and every damping factor and \<open>max_iter\<close>),
  the run returns with the iteration count \<open>n\<close> exactly when \<open>n\<close> is the first pass
  count, from 1 on, at which the delta of the pass is below epsilon or is a NaN, or at which
  \<open>n\<close> is the nonzero \<open>max_iter\<close>. With a nonzero \<open>max_iter\<close> the run always
  returns, with a count of at most \<open>max_iter\<close>: reaching \<open>max_iter\<close> is an ordinary
  return of the state, the model of the kernel has no failure.
\<close>

theorem pagerank_loop_exit:
  assumes "flt (Fin 0) epsilon"
  shows "((\<exists>s. get_pagerank directed g rank0 pers weight d epsilon max_iter = Some s \<and>
               iter_v s = n) \<longleftrightarrow>
          first_stop directed g rank0 pers weight d epsilon max_iter n) \<and>
         (0 < max_iter \<longrightarrow>
          (\<exists>s. get_pagerank directed g rank0 pers weight d epsilon max_iter = Some s \<and>
               iter_v s \<le> max_iter))"
proof -
  have "\<exists>s. get_pagerank directed g rank0 pers weight d epsilon max_iter = Some s \<and>
               iter_v s \<le> max_iter" if "0 < max_iter"
  proof -
    from first_stop_exists [OF that] obtain m where
      m: "m \<le> max_iter" "first_stop directed g rank0 pers weight d epsilon max_iter m"
      by blast
    from m(2) get_pagerank_iter_iff [OF assms, of directed g rank0 pers weight d max_iter m]
    obtain s where "get_pagerank directed g rank0 pers weight d epsilon max_iter = Some s"
      "iter_v s = m" by blast
    with m(1) show ?thesis by auto
  qed
  with get_pagerank_iter_iff [OF assms] show ?thesis by blast
qed

theorem pagerank_loop_exit_witness:
  "flt (Fin 0) (Fin (1/10)) \<and>
   first_stop True g_one (const_map (Fin 1)) (const_map (Fin 1)) (const_map (Fin 1)) (Fin (1/2)) (Fin (1/10)) 0 2 \<and>
   (\<exists>s. get_pagerank True g_one (const_map (Fin 1)) (const_map (Fin 1)) (const_map (Fin 1)) (Fin (1/2)) (Fin (1/10)) 0 =
          Some s \<and> iter_v s = 2) \<and>
   (\<exists>s. get_pagerank True g_one (const_map (Fin 1)) (const_map (Fin 1)) (const_map (Fin 1)) (Fin (1/2)) (Fin (1/10)) 1 =
          Some s \<and> iter_v s \<le> 1)"
proof -
  have eps: "flt (Fin 0) (Fin (1/10))" by simp
  note a = pagerank_loop_exit [OF eps, of True g_one "const_map (Fin 1)" "const_map (Fin 1)" "const_map (Fin 1)" "Fin (1/2)" 0 2]
  note b = pagerank_loop_exit [OF eps, of True g_one "const_map (Fin 1)" "const_map (Fin 1)" "const_map (Fin 1)" "Fin (1/2)" 1 2]
  from a first_stop_g_one have
    "\<exists>s. get_pagerank True g_one (const_map (Fin 1)) (const_map (Fin 1)) (const_map (Fin 1)) (Fin (1/2)) (Fin (1/10)) 0 =
          Some s \<and> iter_v s = 2" by blast
  moreover from b have
    "\<exists>s. get_pagerank True g_one (const_map (Fin 1)) (const_map (Fin 1)) (const_map (Fin 1)) (Fin (1/2)) (Fin (1/10)) 1 =
          Some s \<and> iter_v s \<le> 1" by simp
  ultimately show ?thesis using eps first_stop_g_one by blast
qed

text \<open>
  Claim C4: in every pass, for every vertex \<open>v\<close> of a well-formed graph, the rank
  written for \<open>v\<close> is \<open>(1 - d) * pers v + d * S\<close>, where \<open>S\<close> is the sum, over the
  edges considered for \<open>v\<close>, of the current rank of the flow source times the edge weight
  divided by the precomputed weighted degree of the flow source (the source of the edge in
  a directed graph, the adjacent endpoint in an undirected one); and the delta of the pass
  is the sum over all vertices of the absolute difference between the written and the
  current rank.
\<close>

theorem pagerank_pass_formula:
  assumes wf: "wf_graph g" and v: "v < num_vertices g"
  shows "written_rank directed g rank0 pers weight d epsilon k v =
           spec_new_rank directed g pers weight d
             (current_rank directed g rank0 pers weight d epsilon k)
             (\<lambda>u. out_degreeS directed u g weight) v \<and>
         pass_delta directed g rank0 pers weight d epsilon (Suc k) =
           fsum (map (\<lambda>u. fabs (fsub (written_rank directed g rank0 pers weight d epsilon k u)
                                       (current_rank directed g rank0 pers weight d epsilon k u)))
                     [0..<num_vertices g])"
proof -
  let ?s = "pass_state directed g rank0 pers weight d epsilon k"
  let ?cur = "current_rank directed g rank0 pers weight d epsilon k"
  note dist = pass_state_distinct(1,2) [of directed g rank0 pers weight d epsilon k]
  have new: "written_rank directed g rank0 pers weight d epsilon k u =
             spec_new_rank directed g pers weight d ?cur (mem ?s Deg) u"
    if "u < num_vertices g" for u
    using that
    by (simp add: written_rank_def current_rank_def pass_state_Suc loop_body_mem [OF dist])
  have deg: "spec_new_rank directed g pers weight d ?cur (mem ?s Deg) u =
             spec_new_rank directed g pers weight d ?cur (\<lambda>u. out_degreeS directed u g weight) u"
    if "u < num_vertices g" for u
    by (rule spec_new_rank_cong) (simp add: pass_state_deg flow_source_lt [OF wf that])
  have "pass_delta directed g rank0 pers weight d epsilon (Suc k) =
        fsum (map (\<lambda>u. fabs (fsub (spec_new_rank directed g pers weight d ?cur (mem ?s Deg) u)
                                   (?cur u)))
                  [0..<num_vertices g])"
    by (simp add: pass_delta_def pass_state_Suc loop_body_delta [OF dist] current_rank_def)
  also have "map (\<lambda>u. fabs (fsub (spec_new_rank directed g pers weight d ?cur (mem ?s Deg) u)
                                  (?cur u)))
                  [0..<num_vertices g] =
             map (\<lambda>u. fabs (fsub (written_rank directed g rank0 pers weight d epsilon k u)
                                  (?cur u)))
                  [0..<num_vertices g]"
    by (intro map_cong) (simp_all add: new)
  finally show ?thesis using new [OF v] deg [OF v] by simp
qed

lemma spec_new_rank_g_two:
  "spec_new_rank True g_two (const_map (Fin 1)) (const_map (Fin 1)) (Fin (1/2))
     (current_rank True g_two (const_map (Fin 1)) (const_map (Fin 1)) (const_map (Fin 1)) (Fin (1/2)) (Fin (1/10)) 1)
     (\<lambda>u. out_degreeS True u g_two (const_map (Fin 1))) 1 = Fin (3/4)"
  by code_simp

theorem pagerank_pass_formula_witness:
  "wf_graph g_two \<and> 1 < num_vertices g_two \<and>
   written_rank True g_two (const_map (Fin 1)) (const_map (Fin 1)) (const_map (Fin 1)) (Fin (1/2)) (Fin (1/10)) 1 1 =
     Fin (3/4)"
proof -
  have wf: "wf_graph g_two"
    by (simp add: wf_graph_def g_two_def)
  have v: "1 < num_vertices g_two"
    by (simp add: g_two_def)
  from pagerank_pass_formula [OF wf v, of True "const_map (Fin 1)" "const_map (Fin 1)" "const_map (Fin 1)" "Fin (1/2)" "Fin (1/10)" 1]
  have "written_rank True g_two (const_map (Fin 1)) (const_map (Fin 1)) (const_map (Fin 1)) (Fin (1/2)) (Fin (1/10)) 1 1 =
     Fin (3/4)"
    by (simp only: spec_new_rank_g_two)
  with wf v show ?thesis by blast
qed

text \<open>
  Claim C9: for every epsilon > 0, every damping factor, every \<open>max_iter\<close>, every graph
  and every initial rank vector, the loop runs the body once before any delta of a pass is
  compared with epsilon, and the iteration count of a run that returns is at least 1.
\<close>

theorem pagerank_at_least_one_pass:
  assumes "flt (Fin 0) epsilon"
  shows "while_loop directed g pers weight d epsilon max_iter
           (init_state directed g rank0 weight epsilon) =
           (let s' = loop_body directed g pers weight d (init_state directed g rank0 weight epsilon)
            in if 0 < max_iter \<and> iter_v s' = max_iter then Some s'
               else while_loop directed g pers weight d epsilon max_iter s') \<and>
         (\<forall>s. get_pagerank directed g rank0 pers weight d epsilon max_iter = Some s \<longrightarrow>
              1 \<le> iter_v s)"
proof
  have "fge (delta_v (init_state directed g rank0 weight epsilon)) epsilon"
    using fge_eps_plus_one [OF assms] by (simp add: init_state_def)
  then show "while_loop directed g pers weight d epsilon max_iter
           (init_state directed g rank0 weight epsilon) =
           (let s' = loop_body directed g pers weight d (init_state directed g rank0 weight epsilon)
            in if 0 < max_iter \<and> iter_v s' = max_iter then Some s'
               else while_loop directed g pers weight d epsilon max_iter s')"
    by (subst while_loop.simps) simp
next
  show "\<forall>s. get_pagerank directed g rank0 pers weight d epsilon max_iter = Some s \<longrightarrow>
            1 \<le> iter_v s"
  proof (intro allI impI)
    fix s assume "get_pagerank directed g rank0 pers weight d epsilon max_iter = Some s"
    then have "\<exists>s'. get_pagerank directed g rank0 pers weight d epsilon max_iter = Some s' \<and>
                 iter_v s' = iter_v s" by blast
    then have "first_stop directed g rank0 pers weight d epsilon max_iter (iter_v s)"
      by (simp only: get_pagerank_iter_iff [OF assms])
    then show "1 \<le> iter_v s" by (simp add: first_stop_def)
  qed
qed

theorem pagerank_at_least_one_pass_witness:
  "flt (Fin 0) (Fin (1/10)) \<and>
   (\<exists>s. get_pagerank True g_one (const_map (Fin (1/2))) (const_map (Fin 1)) (const_map (Fin 1)) (Fin (1/2)) (Fin (1/10)) 0 =
          Some s \<and> iter_v s = 1 \<and> 1 \<le> iter_v s)"
proof -
  have eps: "flt (Fin 0) (Fin (1/10))" by simp
  from run_g_one_converged obtain s where
    s: "get_pagerank True g_one (const_map (Fin (1/2))) (const_map (Fin 1)) (const_map (Fin 1)) (Fin (1/2)) (Fin (1/10)) 0 =
          Some s" and i: "iter_v s = 1"
    by auto
  from pagerank_at_least_one_pass [OF eps, of True g_one "const_map (Fin 1)" "const_map (Fin 1)" "Fin (1/2)" 0 "const_map (Fin (1/2))"] s
  have "1 \<le> iter_v s" by blast
  with eps s i show ?thesis by blast
qed

section \<open>Lemmas about the loaders\<close>

lemma add_vertices_num: "add_vertices n g = g\<lparr>num_vertices := num_vertices g + n\<rparr>"
  by (induction n arbitrary: g) (simp_all add: add_vertex_def)

lemma dispatch_no_match:
  "get_array ty obj = None \<Longrightarrow>
   dispatch cvt str obj ty (st, False) = Some (Ok (st, False) ())"
  by (simp add: dispatch_def)

lemma for_each_no_match:
  "\<forall>ty\<in>set tys. get_array ty obj = None \<Longrightarrow>
   for_each (dispatch cvt str obj) tys (st, False) = Some (Ok (st, False) ())"
  by (induction tys) (simp_all add: dispatch_no_match)

text \<open>
  The loop of line 425 in closed form: it leaves the count at one more than the larger index,
  and it has no exit when an index is \<open>size_max\<close>.
\<close>

lemma grow_eq:
  "grow s t g =
     (if max s t < size_max \<or> max s t < num_vertices g
      then Some (g\<lparr>num_vertices := max (num_vertices g) (Suc (max s t))\<rparr>)
      else None)"
proof (induction s t g rule: grow.induct)
  case (1 s t g)
  show ?case
  proof (cases "s \<ge> num_vertices g \<or> t \<ge> num_vertices g")
    case True
    then have le: "num_vertices g \<le> max s t" by auto
    show ?thesis
    proof (cases "num_vertices g < size_max")
      case lt: True
      from True lt have "grow s t g = grow s t (fst (add_vertex g))"
        by (subst grow.simps) simp
      also have "\<dots> =
          (if max s t < size_max \<or> max s t < num_vertices (fst (add_vertex g))
           then Some ((fst (add_vertex g))\<lparr>num_vertices :=
                   max (num_vertices (fst (add_vertex g))) (Suc (max s t))\<rparr>)
           else None)"
        using True lt by (rule "1.IH")
      also have "\<dots> =
          (if max s t < size_max \<or> max s t < num_vertices g
           then Some (g\<lparr>num_vertices := max (num_vertices g) (Suc (max s t))\<rparr>)
           else None)"
        using le lt by (auto simp add: add_vertex_def max_def)
      finally show ?thesis .
    next
      case ge: False
      from True ge have "grow s t g = None"
        by (subst grow.simps) simp
      moreover from le ge have "\<not> (max s t < size_max \<or> max s t < num_vertices g)"
        by auto
      ultimately show ?thesis by simp
    qed
  next
    case False
    then have "grow s t g = Some g" by (subst grow.simps) simp
    moreover from False have "max s t < num_vertices g"
      "max (num_vertices g) (Suc (max s t)) = num_vertices g"
      by (auto simp add: max_def)
    ultimately show ?thesis by simp
  qed
qed

lemma grow_exit:
  "s < size_max \<Longrightarrow> t < size_max \<Longrightarrow>
   grow s t g = Some (g\<lparr>num_vertices := max (num_vertices g) (Suc (max s t))\<rparr>)"
  by (simp add: grow_eq)

lemma grow_no_exit:
  "s = size_max \<or> t = size_max \<Longrightarrow> num_vertices g \<le> size_max \<Longrightarrow> grow s t g = None"
  by (auto simp add: grow_eq max_def)

lemma to_size_t_le: "to_size_t x = Some s \<Longrightarrow> s \<le> size_max"
proof (cases x)
  case (IntVal i)
  assume "to_size_t x = Some s"
  with IntVal have s: "s = nat (i mod 2 ^ 64)" by simp
  have "i mod 2 ^ 64 < 2 ^ 64" by simp
  then have "nat (i mod 2 ^ 64) < 2 ^ 64" by (simp add: nat_less_iff)
  with s show ?thesis by (simp add: size_max_def)
next
  case (FloatVal f)
  assume a: "to_size_t x = Some s"
  show ?thesis
  proof (cases f)
    case (Fin y)
    with a FloatVal have y: "- 1 < y" "y < 2 ^ 64" and s: "s = nat \<lfloor>y\<rfloor>"
      by (simp_all split: if_splits)
    from y(2) have "\<lfloor>y\<rfloor> < 18446744073709551616" by (simp add: floor_less_iff)
    then have "nat \<lfloor>y\<rfloor> < 18446744073709551616" by linarith
    with s show ?thesis by (simp add: size_max_def)
  qed (use a FloatVal in simp_all)
qed

text \<open>A row with an index \<open>size_max\<close> is where the loop over the rows stops for good.\<close>

lemma rows_loop_no_exit:
  assumes "to_size_t (elem a r 0) = Some s" "to_size_t (elem a r 1) = Some t"
    and "s = size_max \<or> t = size_max" "num_vertices (gr st) \<le> size_max"
  shows "rows_loop cvt str a (r # rs) st = None"
  using assms by (simp add: grow_no_exit)

text \<open>An index \<open>-1\<close> of a signed element type is \<open>size_max\<close>: the load does not return.\<close>

lemma negative_index_no_exit:
  "do_add_edge_list cvt str empty_dstate (NdArray (array_of T_int8 [[IntVal (- 1), IntVal 0]])) =
   None"
proof -
  let ?a = "array_of T_int8 [[IntVal (- 1), IntVal 0]]"
  have s: "to_size_t (elem ?a 0 0) = Some size_max" "to_size_t (elem ?a 0 1) = Some 0"
    by (simp_all add: array_of_def size_max_def)
  have "grow size_max 0 (gr empty_dstate) = None"
    by (rule grow_no_exit) (simp_all add: empty_dstate_def empty_graph_def)
  with s have "rows_loop cvt str ?a [0] empty_dstate = None"
    by simp
  moreover have "shape0 ?a = 1" "shape1 ?a = 2" "get_array T_int8 (NdArray ?a) = Some ?a"
    by (simp_all add: array_of_def get_array_def)
  ultimately have d: "dispatch cvt str (NdArray ?a) T_int8 (empty_dstate, False) = None"
    by (simp add: dispatch_def)
  have n: "\<And>ty. ty \<noteq> T_int8 \<Longrightarrow>
      dispatch cvt str (NdArray ?a) ty (empty_dstate, False) = Some (Ok (empty_dstate, False) ())"
    by (simp add: dispatch_def get_array_def array_of_def)
  show ?thesis
    unfolding do_add_edge_list_def vals_t_def
    by (simp add: n d)
qed

lemma props_loop_ok:
  assumes "\<forall>i\<in>set js. i < length (eprops st) \<and> cvt i (elem a r (i + 2)) \<noteq> None"
  shows "\<exists>st'. props_loop cvt str a r ne js st = Ok st' () \<and> gr st' = gr st \<and>
           length (eprops st') = length (eprops st) \<and>
           (\<forall>i k. k \<noteq> idx ne \<longrightarrow> (eprops st' ! i) k = (eprops st ! i) k)"
  using assms
proof (induction js arbitrary: st)
  case Nil
  show ?case by simp
next
  case (Cons j js)
  from Cons.prems obtain y where y: "cvt j (elem a r (j + 2)) = Some y" and j: "j < length (eprops st)"
    by auto
  let ?st = "st\<lparr>eprops := (eprops st)[j := (eprops st ! j)(idx ne \<mapsto> y)]\<rparr>"
  have "\<forall>i\<in>set js. i < length (eprops ?st) \<and> cvt i (elem a r (i + 2)) \<noteq> None"
    using Cons.prems by simp
  from Cons.IH [OF this] obtain st' where
    st': "props_loop cvt str a r ne js ?st = Ok st' ()" "gr st' = gr ?st"
      "length (eprops st') = length (eprops ?st)"
      "\<forall>i k. k \<noteq> idx ne \<longrightarrow> (eprops st' ! i) k = (eprops ?st ! i) k"
    by blast
  have "\<forall>i k. k \<noteq> idx ne \<longrightarrow> (eprops ?st ! i) k = (eprops st ! i) k"
    using j by (simp add: nth_list_update)
  with st' y j show ?case by simp
qed

lemma props_loop_frame:
  "props_loop cvt str a r ne js st = Ok st' u \<or> props_loop cvt str a r ne js st = Throw st' x \<Longrightarrow>
   gr st' = gr st \<and> length (eprops st') = length (eprops st) \<and>
   (\<forall>i k. k \<noteq> idx ne \<longrightarrow> (eprops st' ! i) k = (eprops st ! i) k)"
proof (induction js arbitrary: st)
  case Nil
  then show ?case by simp
next
  case (Cons j js)
  show ?case
  proof (cases "length (eprops st) \<le> j")
    case True
    with Cons.prems show ?thesis by simp
  next
    case False
    show ?thesis
    proof (cases "cvt j (elem a r (j + 2))")
      case None
      with False Cons.prems show ?thesis by simp
    next
      case (Some y)
      let ?st = "st\<lparr>eprops := (eprops st)[j := (eprops st ! j)(idx ne \<mapsto> y)]\<rparr>"
      from Some False Cons.prems have
        "props_loop cvt str a r ne js ?st = Ok st' u \<or> props_loop cvt str a r ne js ?st = Throw st' x"
        by simp
      from Cons.IH [OF this] False show ?thesis by (simp add: nth_list_update)
    qed
  qed
qed

lemma props_loop_fail:
  assumes "j \<in> set js" "\<forall>i\<in>set js. i < length (eprops st)"
    and "\<forall>i\<in>set (takeWhile (\<lambda>i. i \<noteq> j) js). cvt i (elem a r (i + 2)) \<noteq> None"
    and "cvt j (elem a r (j + 2)) = None"
  shows "\<exists>st'. props_loop cvt str a r ne js st =
           Throw st' (ValueException (''Invalid edge property value: '' @ str (elem a r (j + 2))))"
  using assms
proof (induction js arbitrary: st)
  case Nil
  then show ?case by simp
next
  case (Cons i js)
  show ?case
  proof (cases "i = j")
    case True
    with Cons.prems show ?thesis by simp
  next
    case False
    with Cons.prems obtain y where y: "cvt i (elem a r (i + 2)) = Some y" by auto
    let ?st = "st\<lparr>eprops := (eprops st)[i := (eprops st ! i)(idx ne \<mapsto> y)]\<rparr>"
    from False Cons.prems have "j \<in> set js" "\<forall>i\<in>set js. i < length (eprops ?st)"
      "\<forall>i\<in>set (takeWhile (\<lambda>i. i \<noteq> j) js). cvt i (elem a r (i + 2)) \<noteq> None"
      by auto
    from Cons.IH [OF this Cons.prems(4)] y Cons.prems(2) show ?thesis by simp
  qed
qed


lemma rows_loop_append:
  "rows_loop cvt str a (rs1 @ rs2) st =
     (case rows_loop cvt str a rs1 st of
        None \<Rightarrow> None
      | Some (Throw st' x) \<Rightarrow> Some (Throw st' x)
      | Some (Ok st' u) \<Rightarrow> rows_loop cvt str a rs2 st')"
  by (induction rs1 arbitrary: st)
     (auto simp add: Let_def case_prod_beta split: option.splits res.splits)

lemma rows_loop_step:
  assumes "vertex_index (elem a r 0)" "vertex_index (elem a r 1)"
  shows "rows_loop cvt str a (r # rs) st =
     (let s = the (to_size_t (elem a r 0)); t = the (to_size_t (elem a r 1));
          g1 = (gr st)\<lparr>num_vertices := max (num_vertices (gr st)) (Suc (max s t))\<rparr>
      in case props_loop cvt str a r (snd (add_edge s t g1)) [0..<shape1 a - 2]
                (st\<lparr>gr := fst (add_edge s t g1)\<rparr>) of
           Throw st' x \<Rightarrow> Some (Throw st' x)
         | Ok st' u \<Rightarrow> rows_loop cvt str a rs st')"
proof -
  from assms obtain s t where
    st: "to_size_t (elem a r 0) = Some s" "s < size_max"
        "to_size_t (elem a r 1) = Some t" "t < size_max"
    by (auto simp add: vertex_index_def split: option.splits)
  then show ?thesis
    by (simp add: grow_exit Let_def case_prod_beta)
qed

lemma rows_loop_ok:
  assumes "\<forall>r\<in>set rs. vertex_index (elem a r 0) \<and> vertex_index (elem a r 1) \<and>
             (\<forall>i<shape1 a - 2. i < length (eprops st) \<and> cvt i (elem a r (i + 2)) \<noteq> None)"
  shows "\<exists>st'. rows_loop cvt str a rs st = Some (Ok st' ()) \<and>
           gr st' = \<lparr>num_vertices = spec_grow (num_vertices (gr st)) (row_pairs a rs),
                      edge_list = edge_list (gr st) @ row_pairs a rs\<rparr> \<and>
           length (eprops st') = length (eprops st)"
  using assms
proof (induction rs arbitrary: st)
  case Nil
  show ?case by (simp add: row_pairs_def)
next
  case (Cons r rs)
  let ?s = "the (to_size_t (elem a r 0))" and ?t = "the (to_size_t (elem a r 1))"
  let ?g1 = "(gr st)\<lparr>num_vertices := max (num_vertices (gr st)) (Suc (max ?s ?t))\<rparr>"
  let ?g2 = "fst (add_edge ?s ?t ?g1)"
  let ?ne = "snd (add_edge ?s ?t ?g1)"
  let ?st = "st\<lparr>gr := ?g2\<rparr>"
  from Cons.prems have vi: "vertex_index (elem a r 0)" "vertex_index (elem a r 1)"
    by simp_all
  have "\<forall>i\<in>set [0..<shape1 a - 2]. i < length (eprops ?st) \<and> cvt i (elem a r (i + 2)) \<noteq> None"
    using Cons.prems by simp
  from props_loop_ok [where js = "[0..<shape1 a - 2]" and st = ?st and cvt = cvt and a = a
      and r = r and str = str and ne = ?ne, OF this] obtain st1 where
    st1: "props_loop cvt str a r ?ne [0..<shape1 a - 2] ?st = Ok st1 ()" "gr st1 = ?g2"
      "length (eprops st1) = length (eprops st)"
    by auto
  have "\<forall>r\<in>set rs. vertex_index (elem a r 0) \<and> vertex_index (elem a r 1) \<and>
          (\<forall>i<shape1 a - 2. i < length (eprops st1) \<and> cvt i (elem a r (i + 2)) \<noteq> None)"
    using Cons.prems st1(3) by simp
  from Cons.IH [OF this] obtain st' where
    st': "rows_loop cvt str a rs st1 = Some (Ok st' ())"
      "gr st' = \<lparr>num_vertices = spec_grow (num_vertices (gr st1)) (row_pairs a rs),
                      edge_list = edge_list (gr st1) @ row_pairs a rs\<rparr>"
      "length (eprops st') = length (eprops st1)"
    by blast
  have step: "rows_loop cvt str a (r # rs) st = rows_loop cvt str a rs st1"
    using st1(1) by (simp add: rows_loop_step [OF vi] Let_def del: rows_loop.simps)
  have g2: "num_vertices ?g2 = max (num_vertices (gr st)) (Suc (max ?s ?t))"
    "edge_list ?g2 = edge_list (gr st) @ [(?s, ?t)]"
    by (simp_all add: add_edge_def)
  show ?case
    unfolding step using st' st1(2,3) g2 by (simp add: row_pairs_def)
qed

lemma dstate_le_refl: "dstate_le st st"
  by (simp add: dstate_le_def)

lemma dstate_le_trans: "dstate_le st1 st2 \<Longrightarrow> dstate_le st2 st3 \<Longrightarrow> dstate_le st1 st3"
proof -
  assume a: "dstate_le st1 st2" and b: "dstate_le st2 st3"
  let ?n1 = "length (edge_list (gr st1))" and ?n2 = "length (edge_list (gr st2))"
  from a have t1: "take ?n1 (edge_list (gr st2)) = edge_list (gr st1)"
    by (simp add: dstate_le_def)
  then have "length (take ?n1 (edge_list (gr st2))) = ?n1"
    by simp
  then have le: "?n1 \<le> ?n2"
    by simp
  from b have t2: "take ?n2 (edge_list (gr st3)) = edge_list (gr st2)"
    by (simp add: dstate_le_def)
  have "take ?n1 (edge_list (gr st3)) = take ?n1 (take ?n2 (edge_list (gr st3)))"
    using le by (simp add: min_def)
  with t1 t2 have "take ?n1 (edge_list (gr st3)) = edge_list (gr st1)" by simp
  moreover have "(eprops st3 ! i) k = (eprops st1 ! i) k"
    if "i < length (eprops st1)" "k < ?n1" for i k
  proof -
    from that a have "(eprops st2 ! i) k = (eprops st1 ! i) k" by (simp add: dstate_le_def)
    moreover from that a b le have "(eprops st3 ! i) k = (eprops st2 ! i) k"
      by (simp add: dstate_le_def)
    ultimately show ?thesis by simp
  qed
  ultimately show ?thesis using a b by (simp add: dstate_le_def)
qed


lemma row_step_le:
  assumes "rows_loop cvt str a [r] st = Some (Ok st' u) \<or>
           rows_loop cvt str a [r] st = Some (Throw st' x)"
  shows "dstate_le st st'"
proof (cases "to_size_t (elem a r 0)")
  case None
  with assms show ?thesis by (auto simp add: dstate_le_refl)
next
  case s: (Some s)
  show ?thesis
  proof (cases "to_size_t (elem a r 1)")
    case None
    with s assms show ?thesis by (auto simp add: dstate_le_refl)
  next
    case t: (Some t)
    show ?thesis
    proof (cases "grow s t (gr st)")
      case None
      with s t assms show ?thesis by simp
    next
      case (Some g1)
      let ?g2 = "fst (add_edge s t g1)"
      let ?ne = "snd (add_edge s t g1)"
      let ?st = "st\<lparr>gr := ?g2\<rparr>"
      from Some have g1: "num_vertices (gr st) \<le> num_vertices g1"
        "edge_list g1 = edge_list (gr st)"
        by (auto simp add: grow_eq split: if_splits)
      from assms s t Some have
        "props_loop cvt str a r ?ne [0..<shape1 a - 2] ?st = Ok st' () \<or>
         props_loop cvt str a r ?ne [0..<shape1 a - 2] ?st = Throw st' x"
        by (auto simp add: Let_def case_prod_beta split: res.splits)
      from props_loop_frame [OF this] have
        f: "gr st' = ?g2" "length (eprops st') = length (eprops st)"
           "\<forall>i k. k \<noteq> idx ?ne \<longrightarrow> (eprops st' ! i) k = (eprops st ! i) k"
        by simp_all
      have g2: "num_vertices ?g2 = num_vertices g1"
        "edge_list ?g2 = edge_list (gr st) @ [(s, t)]" "idx ?ne = length (edge_list (gr st))"
        using g1(2) by (simp_all add: add_edge_def)
      show ?thesis
        unfolding dstate_le_def using f g2 g1(1) by simp
    qed
  qed
qed

lemma rows_loop_le:
  "rows_loop cvt str a rs st = Some (Ok st' u) \<or> rows_loop cvt str a rs st = Some (Throw st' x) \<Longrightarrow>
   dstate_le st st'"
proof (induction rs arbitrary: st)
  case Nil
  then show ?case by (simp add: dstate_le_refl)
next
  case (Cons r rs)
  have app: "rows_loop cvt str a (r # rs) st =
     (case rows_loop cvt str a [r] st of
        None \<Rightarrow> None
      | Some (Throw st' x) \<Rightarrow> Some (Throw st' x)
      | Some (Ok st' u) \<Rightarrow> rows_loop cvt str a rs st')"
    using rows_loop_append [of cvt str a "[r]" rs st] by simp
  show ?case
  proof (cases "rows_loop cvt str a [r] st")
    case None
    with app Cons.prems show ?thesis by simp
  next
    case (Some res1)
    show ?thesis
    proof (cases res1)
      case (Ok st1 u1)
      with Some have le1: "dstate_le st st1" using row_step_le by blast
      from Ok Some app have "rows_loop cvt str a (r # rs) st = rows_loop cvt str a rs st1"
        by simp
      with Cons.prems have "rows_loop cvt str a rs st1 = Some (Ok st' u) \<or>
          rows_loop cvt str a rs st1 = Some (Throw st' x)" by simp
      from Cons.IH [OF this] le1 show ?thesis by (rule dstate_le_trans [rotated])
    next
      case (Throw st1 x1)
      with Some have le1: "dstate_le st st1" using row_step_le by blast
      from Throw Some app have "rows_loop cvt str a (r # rs) st = Some (Throw st1 x1)"
        by simp
      with Cons.prems le1 show ?thesis by simp
    qed
  qed
qed

lemma for_each_found:
  "for_each (dispatch cvt str obj) tys (st, True) = Some (Ok (st, True) ())"
  by (induction tys) (simp_all add: dispatch_def)

lemma for_each_match:
  assumes "dtype a \<in> set tys" "ndim a = 2" "2 \<le> shape1 a"
  shows "for_each (dispatch cvt str (NdArray a)) tys (st, False) =
     (case rows_loop cvt str a [0..<shape0 a] st of
        None \<Rightarrow> None
      | Some (Throw st' x) \<Rightarrow> Some (Throw (st', False) x)
      | Some (Ok st' u) \<Rightarrow> Some (Ok (st', True) ()))"
  using assms(1)
proof (induction tys)
  case Nil
  then show ?case by simp
next
  case (Cons ty tys)
  show ?case
  proof (cases "ty = dtype a")
    case True
    with assms(2,3) have "dispatch cvt str (NdArray a) ty (st, False) =
       (case rows_loop cvt str a [0..<shape0 a] st of
          None \<Rightarrow> None
        | Some (Throw st' x) \<Rightarrow> Some (Throw (st', False) x)
        | Some (Ok st' u) \<Rightarrow> Some (Ok (st', True) ()))"
      by (simp add: dispatch_def get_array_def)
    then show ?thesis
      by (simp add: for_each_found split: option.splits res.splits)
  next
    case False
    then have "dispatch cvt str (NdArray a) ty (st, False) = Some (Ok (st, False) ())"
      by (simp add: dispatch_def get_array_def)
    moreover from False Cons.prems have "dtype a \<in> set tys" by auto
    ultimately show ?thesis using Cons.IH by simp
  qed
qed

lemma do_add_edge_list_match:
  assumes "dtype a \<in> set vals_t" "ndim a = 2" "2 \<le> shape1 a"
  shows "do_add_edge_list cvt str st (NdArray a) =
     (case rows_loop cvt str a [0..<shape0 a] st of
        None \<Rightarrow> None
      | Some (Throw st' x) \<Rightarrow> Some (Throw st' x)
      | Some (Ok st' u) \<Rightarrow> Some (Ok st' ()))"
  unfolding do_add_edge_list_def for_each_match [OF assms]
  by (simp split: option.splits res.splits)

lemma upt_split: "m < n \<Longrightarrow> [0..<n] = [0..<m] @ m # [Suc m..<n]"
  using upt_add_eq_append [of 0 m "n - m"] upt_conv_Cons [of m n] by simp

lemma direct_loader_no_rollback:
  assumes match: "dtype a \<in> set vals_t" "ndim a = 2" "2 \<le> shape1 a"
    and m: "m < shape0 a"
    and pre: "rows_loop cvt str a [0..<m] st = Some (Ok st1 ())"
    and vi: "vertex_index (elem a m 0)" "vertex_index (elem a m 1)"
    and j: "j + 2 < shape1 a" "shape1 a - 2 \<le> length (eprops st)"
    and ok: "\<forall>i<j. cvt i (elem a m (i + 2)) \<noteq> None"
    and bad: "cvt j (elem a m (j + 2)) = None"
  shows "\<exists>st2. do_add_edge_list cvt str st (NdArray a) =
           Some (Throw st2
             (ValueException (''Invalid edge property value: '' @ str (elem a m (j + 2))))) \<and>
           dstate_le st1 st2"
proof -
  let ?s = "the (to_size_t (elem a m 0))" and ?t = "the (to_size_t (elem a m 1))"
  let ?g1 = "(gr st1)\<lparr>num_vertices := max (num_vertices (gr st1)) (Suc (max ?s ?t))\<rparr>"
  let ?g2 = "fst (add_edge ?s ?t ?g1)"
  let ?ne = "snd (add_edge ?s ?t ?g1)"
  let ?st = "st1\<lparr>gr := ?g2\<rparr>"
  let ?x = "ValueException (''Invalid edge property value: '' @ str (elem a m (j + 2)))"
  from pre have "dstate_le st st1" using rows_loop_le by blast
  then have len: "length (eprops st1) = length (eprops st)" by (simp add: dstate_le_def)
  have 1: "j \<in> set [0..<shape1 a - 2]" using j by simp
  have 2: "\<forall>i\<in>set [0..<shape1 a - 2]. i < length (eprops ?st)" using j len by simp
  have tw: "takeWhile (\<lambda>i. i \<noteq> j) [0..<shape1 a - 2] = [0..<j]"
  proof -
    from j have "[0..<shape1 a - 2] = [0..<j] @ j # [Suc j..<shape1 a - 2]"
      by (intro upt_split) simp
    then show ?thesis by (simp add: takeWhile_append2 [where xs = "[0..<j]"] takeWhile_append)
  qed
  have 3: "\<forall>i\<in>set (takeWhile (\<lambda>i. i \<noteq> j) [0..<shape1 a - 2]). cvt i (elem a m (i + 2)) \<noteq> None"
    unfolding tw using ok by simp
  from props_loop_fail [where js = "[0..<shape1 a - 2]" and st = ?st and cvt = cvt and a = a
      and r = m and str = str and ne = ?ne and j = j, OF 1 2 3 bad] obtain st2 where
    st2: "props_loop cvt str a m ?ne [0..<shape1 a - 2] ?st = Throw st2 ?x" by blast
  then have row: "rows_loop cvt str a [m] st1 = Some (Throw st2 ?x)"
    by (simp add: rows_loop_step [OF vi] Let_def del: rows_loop.simps)
  then have le: "dstate_le st1 st2" using row_step_le by blast
  have "rows_loop cvt str a [0..<shape0 a] st = Some (Throw st2 ?x)"
    unfolding upt_split [OF m]
    using pre row rows_loop_append [of cvt str a "[m]" "[Suc m..<shape0 a]" st1]
    by (simp add: rows_loop_append [of cvt str a "[0..<m]"])
  then show ?thesis using le by (auto simp add: do_add_edge_list_match [OF match])
qed

lemma key_table_dom: "key_table n0 seen k = None \<longleftrightarrow> k \<notin> set seen"
proof -
  have "map fst (zip seen [n0..<n0 + length seen]) = seen"
    by (simp add: map_fst_zip)
  then have "fst ` set (zip seen [n0..<n0 + length seen]) = set seen"
    by (metis set_map)
  then show ?thesis
    by (simp add: key_table_def map_of_eq_None_iff)
qed

lemma key_table_snoc:
  assumes "r \<notin> set seen"
  shows "key_table n0 (seen @ [r]) = (key_table n0 seen)(r \<mapsto> n0 + length seen)"
proof -
  have "[n0..<n0 + length (seen @ [r])] = [n0..<n0 + length seen] @ [n0 + length seen]"
    by simp
  then have "zip (seen @ [r]) [n0..<n0 + length (seen @ [r])] =
             zip seen [n0..<n0 + length seen] @ [(r, n0 + length seen)]"
    by (simp only: zip_append length_upt add_diff_cancel_left' zip.simps list.case)
  then have "key_table n0 (seen @ [r]) = map_of [(r, n0 + length seen)] ++ key_table n0 seen"
    by (simp only: key_table_def map_of_append)
  also have "\<dots> = (key_table n0 seen)(r \<mapsto> n0 + length seen)"
  proof
    fix k
    show "(map_of [(r, n0 + length seen)] ++ key_table n0 seen) k =
          ((key_table n0 seen)(r \<mapsto> n0 + length seen)) k"
      using assms key_table_dom [of n0 seen r]
      by (cases "key_table n0 seen k") (auto simp add: map_add_def)
  qed
  finally show ?thesis .
qed

lemma key_table_range:
  "key_table n0 seen k = Some v \<Longrightarrow> n0 \<le> v \<and> v < n0 + length seen"
  by (auto simp add: key_table_def dest!: map_of_SomeD set_zip_rightD)

lemma key_table_nth:
  "distinct seen \<Longrightarrow> i < length seen \<Longrightarrow> key_table n0 seen (seen ! i) = Some (n0 + i)"
proof -
  assume d: "distinct seen" and i: "i < length seen"
  have "(seen ! i, [n0..<n0 + length seen] ! i) \<in> set (zip seen [n0..<n0 + length seen])"
    using i by (auto simp add: set_zip intro!: exI [of _ i])
  moreover have "distinct (map fst (zip seen [n0..<n0 + length seen]))"
    using d by simp
  ultimately have "map_of (zip seen [n0..<n0 + length seen]) (seen ! i) =
      Some ([n0..<n0 + length seen] ! i)"
    by (rule map_of_is_SomeI [rotated])
  with i show ?thesis by (simp add: key_table_def)
qed

lemma first_seen_step_distinct:
  "distinct seen \<Longrightarrow> distinct (if k \<in> set seen then seen else seen @ [k])"
  by simp

lemma first_seen_distinct: "distinct seen \<Longrightarrow> distinct (first_seen seen ks)"
  by (induction ks arbitrary: seen) simp_all

lemma first_seen_stable:
  "k \<in> set seen \<Longrightarrow> key_table n0 (first_seen seen ks) k = key_table n0 seen k"
proof (induction ks arbitrary: seen)
  case Nil
  show ?case by simp
next
  case (Cons x ks)
  show ?case
  proof (cases "x \<in> set seen")
    case True
    with Cons show ?thesis by simp
  next
    case False
    with Cons.prems have "k \<noteq> x" by auto
    from Cons.prems have "k \<in> set (seen @ [x])" by simp
    from Cons.IH [OF this] False \<open>k \<noteq> x\<close> show ?thesis
      by (simp add: key_table_snoc)
  qed
qed

lemma first_seen_append: "first_seen seen (ks @ ks') = first_seen (first_seen seen ks) ks'"
  by (induction ks arbitrary: seen) simp_all

lemma first_seen_mem: "k \<in> set seen \<or> k \<in> set ks \<Longrightarrow> k \<in> set (first_seen seen ks)"
  by (induction ks arbitrary: seen) auto

lemma grow1_id: "s < num_vertices g \<Longrightarrow> grow1 s g = g"
  by (subst grow1.simps) simp

lemma get_vertex_inv:
  assumes inv: "hinv n0 vm0 cast seen (st, tb)" and c: "cast r \<noteq> None"
  shows "\<exists>st' tb' v. get_vertex cast r (st, tb) = Ok (st', tb') v \<and>
           hinv n0 vm0 cast (first_seen seen [r]) (st', tb') \<and>
           tb' r = Some v \<and> v < num_vertices (hgr st') \<and>
           edge_list (hgr st') = edge_list (hgr st) \<and> heprops st' = heprops st"
proof (cases "r \<in> set seen")
  case True
  then obtain v where v: "tb r = Some v"
    using inv key_table_dom [of n0 seen r] by (auto simp add: hinv_def)
  then have "v < n0 + length seen"
    using inv key_table_range [of n0 seen r v] by (simp add: hinv_def)
  with v True inv show ?thesis
    by (simp add: get_vertex_def hinv_def)
next
  case False
  then have none: "tb r = None"
    using inv key_table_dom [of n0 seen r] by (simp add: hinv_def)
  from c obtain x where x: "cast r = Some x" by auto
  let ?v = "n0 + length seen"
  let ?st = "st\<lparr>hgr := (hgr st)\<lparr>num_vertices := Suc (num_vertices (hgr st))\<rparr>,
                  vmap := (vmap st)(?v \<mapsto> x)\<rparr>"
  let ?tb = "tb(r \<mapsto> ?v)"
  have nv: "num_vertices (hgr st) = ?v" using inv by (simp add: hinv_def)
  have gv: "get_vertex cast r (st, tb) = Ok (?st, ?tb) ?v"
    using none x nv by (simp add: get_vertex_def add_vertex_def Let_def)
  have "hinv n0 vm0 cast (seen @ [r]) (?st, ?tb)"
    unfolding hinv_def
  proof (intro conjI allI impI)
    show "distinct (seen @ [r])" using inv False by (simp add: hinv_def)
    show "snd (?st, ?tb) = key_table n0 (seen @ [r])"
      using inv False by (simp add: hinv_def key_table_snoc)
    show "num_vertices (hgr (fst (?st, ?tb))) = n0 + length (seen @ [r])"
      using nv by simp
  next
    fix i assume "i < length (seen @ [r])"
    then show "vmap (fst (?st, ?tb)) (n0 + i) = cast ((seen @ [r]) ! i)"
      using inv x by (cases "i = length seen") (auto simp add: hinv_def nth_append)
  next
    fix v assume "v < n0 \<or> n0 + length (seen @ [r]) \<le> v"
    then show "vmap (fst (?st, ?tb)) v = vm0 v"
      using inv by (auto simp add: hinv_def)
  qed
  with gv False nv show ?thesis by simp
qed

lemma pair_row_inv:
  assumes inv: "hinv n0 vm0 cast seen (st, tb)" and ca: "cast a \<noteq> None" and cb: "cast b \<noteq> None"
  shows "\<exists>st' tb'. row_items cast cvt str 0 [PyStr a, PyStr b] (0, 0, null_edge) (st, tb) =
             Ok (st', tb') () \<and>
           hinv n0 vm0 cast (first_seen seen [a, b]) (st', tb') \<and>
           edge_list (hgr st') = edge_list (hgr st) @ [(the (tb' a), the (tb' b))] \<and>
           heprops st' = heprops st"
proof -
  from get_vertex_inv [OF inv ca] obtain st1 tb1 va where
    1: "get_vertex cast a (st, tb) = Ok (st1, tb1) va"
       "hinv n0 vm0 cast (first_seen seen [a]) (st1, tb1)"
       "tb1 a = Some va" "va < num_vertices (hgr st1)"
       "edge_list (hgr st1) = edge_list (hgr st)" "heprops st1 = heprops st"
    by blast
  from get_vertex_inv [OF 1(2) cb] obtain st2 tb2 vb where
    2: "get_vertex cast b (st1, tb1) = Ok (st2, tb2) vb"
       "hinv n0 vm0 cast (first_seen (first_seen seen [a]) [b]) (st2, tb2)"
       "tb2 b = Some vb" "vb < num_vertices (hgr st2)"
       "edge_list (hgr st2) = edge_list (hgr st1)" "heprops st2 = heprops st1"
    by blast
  have fs: "first_seen (first_seen seen [a]) [b] = first_seen seen [a, b]"
    by simp
  have "a \<in> set (first_seen seen [a])" by simp
  then have "key_table n0 (first_seen (first_seen seen [a]) [b]) a =
             key_table n0 (first_seen seen [a]) a"
    by (rule first_seen_stable)
  with 1(2,3) 2(2) have tb2a: "tb2 a = Some va"
    by (simp add: hinv_def)
  let ?st = "st2\<lparr>hgr := (hgr st2)\<lparr>edge_list := edge_list (hgr st2) @ [(va, vb)]\<rparr>\<rparr>"
  have run: "row_items cast cvt str 0 [PyStr a, PyStr b] (0, 0, null_edge) (st, tb) =
        Ok (?st, tb2) ()"
    using 1(1,4,6) 2(1,4,6) by (simp add: grow1_id add_edge_def)
  have "hinv n0 vm0 cast (first_seen seen [a, b]) (?st, tb2)"
    using 2(2) unfolding fs by (simp add: hinv_def)
  with run tb2a 2(3,5,6) 1(5,6) show ?thesis by simp
qed

lemma pair_rows_inv:
  assumes "hinv n0 vm0 cast seen (st, tb)" and "\<forall>k\<in>set (pair_keys ps). cast k \<noteq> None"
  shows "\<exists>st' tb'. hash_rows cast cvt str (pair_rows ps) (st, tb) = Ok (st', tb') () \<and>
           hinv n0 vm0 cast (first_seen seen (pair_keys ps)) (st', tb') \<and>
           edge_list (hgr st') =
             edge_list (hgr st) @ map (\<lambda>(a, b). (the (tb' a), the (tb' b))) ps \<and>
           heprops st' = heprops st"
  using assms
proof (induction ps arbitrary: seen st tb)
  case Nil
  then show ?case by (simp add: pair_rows_def pair_keys_def)
next
  case (Cons p ps)
  obtain a b where p: "p = (a, b)" by (cases p)
  from Cons.prems(2) p have ca: "cast a \<noteq> None" and cb: "cast b \<noteq> None"
    and rest: "\<forall>k\<in>set (pair_keys ps). cast k \<noteq> None"
    by (simp_all add: pair_keys_def)
  from pair_row_inv [OF Cons.prems(1) ca cb, of cvt str] obtain st1 tb1 where
    1: "row_items cast cvt str 0 [PyStr a, PyStr b] (0, 0, null_edge) (st, tb) = Ok (st1, tb1) ()"
       "hinv n0 vm0 cast (first_seen seen [a, b]) (st1, tb1)"
       "edge_list (hgr st1) = edge_list (hgr st) @ [(the (tb1 a), the (tb1 b))]"
       "heprops st1 = heprops st"
    by blast
  from Cons.IH [OF 1(2) rest] obtain st' tb' where
    2: "hash_rows cast cvt str (pair_rows ps) (st1, tb1) = Ok (st', tb') ()"
       "hinv n0 vm0 cast (first_seen (first_seen seen [a, b]) (pair_keys ps)) (st', tb')"
       "edge_list (hgr st') =
          edge_list (hgr st1) @ map (\<lambda>(a, b). (the (tb' a), the (tb' b))) ps"
       "heprops st' = heprops st1"
    by blast
  have keys: "first_seen (first_seen seen [a, b]) (pair_keys ps) = first_seen seen (pair_keys (p # ps))"
    using p by (simp add: pair_keys_def)
  have mem: "a \<in> set (first_seen seen [a, b])" "b \<in> set (first_seen seen [a, b])"
    using first_seen_mem [of a seen "[a, b]"] first_seen_mem [of b seen "[a, b]"] by simp_all
  have "tb' a = tb1 a" "tb' b = tb1 b"
    using 1(2) 2(2) first_seen_stable [OF mem(1), of n0 "pair_keys ps"]
      first_seen_stable [OF mem(2), of n0 "pair_keys ps"]
    by (simp_all add: hinv_def)
  with 1 2 keys p show ?case
    by (simp add: pair_rows_def)
qed

lemma abc_keys: "first_seen [] (pair_keys abc_pairs) = [''a'', ''b'', ''c'']"
  by (simp add: abc_pairs_def pair_keys_def)

lemma abc_table:
  "key_table 0 [''a'', ''b'', ''c''] ''a'' = Some 0"
  "key_table 0 [''a'', ''b'', ''c''] ''b'' = Some 1"
  "key_table 0 [''a'', ''b'', ''c''] ''c'' = Some 2"
  by (simp_all add: key_table_def upt_rec)

lemma hstate_le_refl: "hstate_le st st"
  by (simp add: hstate_le_def)

lemma hstate_le_length:
  "hstate_le st st' \<Longrightarrow> length (edge_list (hgr st)) \<le> length (edge_list (hgr st'))"
proof -
  assume "hstate_le st st'"
  then have "length (take (length (edge_list (hgr st))) (edge_list (hgr st'))) =
             length (edge_list (hgr st))"
    by (simp add: hstate_le_def)
  then show ?thesis by simp
qed

lemma hstate_le_trans:
  assumes a: "hstate_le st1 st2" and b: "hstate_le st2 st3"
  shows "hstate_le st1 st3"
proof -
  let ?n1 = "length (edge_list (hgr st1))" and ?n2 = "length (edge_list (hgr st2))"
  note le = hstate_le_length [OF a]
  from a have t1: "take ?n1 (edge_list (hgr st2)) = edge_list (hgr st1)"
    by (simp add: hstate_le_def)
  from b have t2: "take ?n2 (edge_list (hgr st3)) = edge_list (hgr st2)"
    by (simp add: hstate_le_def)
  have "take ?n1 (edge_list (hgr st3)) = take ?n1 (take ?n2 (edge_list (hgr st3)))"
    using le by (simp add: min_def)
  with t1 t2 have e: "take ?n1 (edge_list (hgr st3)) = edge_list (hgr st1)" by simp
  have p: "(heprops st3 ! i) k = (heprops st1 ! i) k"
    if "i < length (heprops st1)" "k < ?n1" for i k
  proof -
    from that a have "(heprops st2 ! i) k = (heprops st1 ! i) k" by (simp add: hstate_le_def)
    moreover from that a b le have "(heprops st3 ! i) k = (heprops st2 ! i) k"
      by (simp add: hstate_le_def)
    ultimately show ?thesis by simp
  qed
  have v: "vmap st3 v = vmap st1 v" if "v < num_vertices (hgr st1)" for v
  proof -
    from that a have "vmap st2 v = vmap st1 v" "v < num_vertices (hgr st2)"
      by (simp_all add: hstate_le_def)
    with b show ?thesis by (simp add: hstate_le_def)
  qed
  from a b e p v show ?thesis by (simp add: hstate_le_def)
qed

lemma grow1_eq: "grow1 s g = g\<lparr>num_vertices := max (num_vertices g) (Suc s)\<rparr>"
proof (induction s g rule: grow1.induct)
  case (1 s g)
  show ?case
  proof (cases "s \<ge> num_vertices g")
    case True
    then have "grow1 s g = grow1 s (fst (add_vertex g))"
      by (subst grow1.simps) simp
    also have "\<dots> = (fst (add_vertex g))\<lparr>num_vertices :=
        max (num_vertices (fst (add_vertex g))) (Suc s)\<rparr>"
      using True by (rule "1.IH")
    also have "\<dots> = g\<lparr>num_vertices := max (num_vertices g) (Suc s)\<rparr>"
      using True by (auto simp add: add_vertex_def max_def)
    finally show ?thesis .
  next
    case False
    then have "grow1 s g = g" by (subst grow1.simps) simp
    moreover from False have "max (num_vertices g) (Suc s) = num_vertices g"
      by (auto simp add: max_def)
    ultimately show ?thesis by simp
  qed
qed

lemma hstate_le_grow1: "hstate_le st (st\<lparr>hgr := grow1 s (hgr st)\<rparr>)"
  by (simp add: hstate_le_def grow1_eq)

lemma hstate_le_add_edge: "hstate_le st (st\<lparr>hgr := fst (add_edge s t (grow1 t (hgr st)))\<rparr>)"
  by (simp add: hstate_le_def grow1_eq add_edge_def)

lemma hstate_le_put:
  assumes "hstate_le st0 st" "length (edge_list (hgr st0)) \<le> k" "j < length (heprops st)"
  shows "hstate_le st0 (st\<lparr>heprops := (heprops st)[j := (heprops st ! j)(k \<mapsto> y)]\<rparr>)"
  using assms by (auto simp add: hstate_le_def nth_list_update)

lemma get_vertex_le_Ok:
  "get_vertex cast r (st, tb) = Ok (st', tb') v \<Longrightarrow> hstate_le st st'"
  by (auto simp add: get_vertex_def add_vertex_def Let_def hstate_le_def
      split: option.splits)

lemma get_vertex_le_Throw:
  "get_vertex cast r (st, tb) = Throw (st', tb') x \<Longrightarrow> hstate_le st st'"
  by (auto simp add: get_vertex_def add_vertex_def Let_def hstate_le_def
      split: option.splits)

lemma get_vertex_ok:
  assumes "cast r \<noteq> None"
  shows "\<exists>st' tb' v. get_vertex cast r (st, tb) = Ok (st', tb') v"
  using assms
  by (auto simp add: get_vertex_def add_vertex_def Let_def split: option.splits)

lemma row_items_le:
  assumes "hstate_le st0 st" "2 \<le> i \<longrightarrow> length (edge_list (hgr st0)) \<le> idx e"
    and "row_items cast cvt str i vals (s, t, e) (st, tb) = Ok (st', tb') u \<or>
         row_items cast cvt str i vals (s, t, e) (st, tb) = Throw (st', tb') x"
  shows "hstate_le st0 st'"
  using assms
proof (induction vals arbitrary: i s t e st tb)
  case Nil
  then show ?case by simp
next
  case (Cons val rest)
  note le = Cons.prems(1) and run = Cons.prems(3)
  show ?case
  proof (cases "i \<ge> length (heprops st) + 2")
    case True
    with run le show ?thesis by simp
  next
    case guard: False
    consider (zero) "i = 0" | (one) "i = 1" | (more) "2 \<le> i" by linarith
    then show ?thesis
    proof cases
      case zero
      show ?thesis
      proof (cases "extract_string val")
        case None
        with zero guard run le show ?thesis by simp
      next
        case (Some r)
        show ?thesis
        proof (cases "get_vertex cast r (st, tb)")
          case (Throw c y)
          obtain st1 tb1 where c: "c = (st1, tb1)" by (cases c)
          from Throw [unfolded c] have "hstate_le st st1" by (rule get_vertex_le_Throw)
          moreover from zero guard Some Throw c run have "st' = st1" by simp
          ultimately show ?thesis using le hstate_le_trans by blast
        next
          case (Ok c s')
          obtain st1 tb1 where c: "c = (st1, tb1)" by (cases c)
          from Ok [unfolded c] have "hstate_le st st1" by (rule get_vertex_le_Ok)
          with le have 1: "hstate_le st0 (st1\<lparr>hgr := grow1 s' (hgr st1)\<rparr>)"
            using hstate_le_trans hstate_le_grow1 by blast
          from zero guard Some Ok c run have
            "row_items cast cvt str (Suc 0) rest (s', t, e) (st1\<lparr>hgr := grow1 s' (hgr st1)\<rparr>, tb1) =
               Ok (st', tb') u \<or>
             row_items cast cvt str (Suc 0) rest (s', t, e) (st1\<lparr>hgr := grow1 s' (hgr st1)\<rparr>, tb1) =
               Throw (st', tb') x"
            by simp
          from Cons.IH [OF 1 _ this] show ?thesis by simp
        qed
      qed
    next
      case one
      show ?thesis
      proof (cases "extract_string val")
        case None
        with one guard run le show ?thesis by simp
      next
        case (Some r)
        show ?thesis
        proof (cases "get_vertex cast r (st, tb)")
          case (Throw c y)
          obtain st1 tb1 where c: "c = (st1, tb1)" by (cases c)
          from Throw [unfolded c] have "hstate_le st st1" by (rule get_vertex_le_Throw)
          moreover from one guard Some Throw c run have "st' = st1" by simp
          ultimately show ?thesis using le hstate_le_trans by blast
        next
          case (Ok c t')
          obtain st1 tb1 where c: "c = (st1, tb1)" by (cases c)
          let ?g2 = "fst (add_edge s t' (grow1 t' (hgr st1)))"
          let ?e = "snd (add_edge s t' (grow1 t' (hgr st1)))"
          from Ok [unfolded c] have "hstate_le st st1" by (rule get_vertex_le_Ok)
          with le have 01: "hstate_le st0 st1" using hstate_le_trans by blast
          then have 1: "hstate_le st0 (st1\<lparr>hgr := ?g2\<rparr>)"
            using hstate_le_trans hstate_le_add_edge by blast
          have "idx ?e = length (edge_list (hgr st1))"
            by (simp add: add_edge_def grow1_eq)
          with hstate_le_length [OF 01] have 2: "2 \<le> Suc (Suc 0) \<longrightarrow>
              length (edge_list (hgr st0)) \<le> idx ?e" by simp
          from one guard Some Ok c run have
            "row_items cast cvt str (Suc (Suc 0)) rest (s, t', ?e) (st1\<lparr>hgr := ?g2\<rparr>, tb1) =
               Ok (st', tb') u \<or>
             row_items cast cvt str (Suc (Suc 0)) rest (s, t', ?e) (st1\<lparr>hgr := ?g2\<rparr>, tb1) =
               Throw (st', tb') x"
            by (simp add: case_prod_beta)
          from Cons.IH [OF 1 2 this] show ?thesis .
        qed
      qed
    next
      case more
      then have i: "i \<noteq> 0" "i \<noteq> 1" by simp_all
      show ?thesis
      proof (cases "cvt (i - 2) val")
        case None
        with i guard run le show ?thesis by simp
      next
        case (Some y)
        let ?st = "st\<lparr>heprops := (heprops st)[i - 2 := (heprops st ! (i - 2))(idx e \<mapsto> y)]\<rparr>"
        from more Cons.prems(2) have k: "length (edge_list (hgr st0)) \<le> idx e" by simp
        from guard more have j: "i - 2 < length (heprops st)" by simp
        have 1: "hstate_le st0 ?st" by (rule hstate_le_put [OF le k j])
        from k have 2: "2 \<le> Suc i \<longrightarrow> length (edge_list (hgr st0)) \<le> idx e" by simp
        from i guard Some run have
          "row_items cast cvt str (Suc i) rest (s, t, e) (?st, tb) = Ok (st', tb') u \<or>
           row_items cast cvt str (Suc i) rest (s, t, e) (?st, tb) = Throw (st', tb') x"
          by simp
        from Cons.IH [OF 1 2 this] show ?thesis .
      qed
    qed
  qed
qed

lemma hash_rows_append:
  "hash_rows cast cvt str (rs1 @ rs2) c =
     (case hash_rows cast cvt str rs1 c of
        Throw c' x \<Rightarrow> Throw c' x
      | Ok c' u \<Rightarrow> hash_rows cast cvt str rs2 c')"
  by (induction rs1 arbitrary: c) (auto split: res.splits)

lemma hash_rows_le:
  "hash_rows cast cvt str rows (st, tb) = Ok (st', tb') u \<or>
   hash_rows cast cvt str rows (st, tb) = Throw (st', tb') x \<Longrightarrow> hstate_le st st'"
proof (induction rows arbitrary: st tb)
  case Nil
  then show ?case by (auto simp add: hstate_le_refl)
next
  case (Cons row rows)
  show ?case
  proof (cases "row_items cast cvt str 0 row (0, 0, null_edge) (st, tb)")
    case (Ok c u1)
    obtain st1 tb1 where c: "c = (st1, tb1)" by (cases c)
    have "hstate_le st st1"
      by (rule row_items_le [OF hstate_le_refl _ disjI1 [OF Ok [unfolded c]]]) simp
    moreover from Ok c Cons.prems have
      "hash_rows cast cvt str rows (st1, tb1) = Ok (st', tb') u \<or>
       hash_rows cast cvt str rows (st1, tb1) = Throw (st', tb') x"
      by simp
    from Cons.IH [OF this] have "hstate_le st1 st'" .
    ultimately show ?thesis by (rule hstate_le_trans)
  next
    case (Throw c y)
    obtain st1 tb1 where c: "c = (st1, tb1)" by (cases c)
    have "hstate_le st st1"
      by (rule row_items_le [OF hstate_le_refl _ disjI2 [OF Throw [unfolded c]]]) simp
    moreover from Throw c Cons.prems have "st' = st1" by simp
    ultimately show ?thesis by simp
  qed
qed

lemma row_items_props_fail:
  assumes "j < length vals" "k + j < length (heprops st)"
    and "\<forall>m<j. cvt (k + m) (vals ! m) \<noteq> None"
    and "cvt (k + j) (vals ! j) = None"
  shows "\<exists>st'. row_items cast cvt str (Suc (Suc k)) vals (s, t, e) (st, tb) =
           Throw (st', tb) (ValueException (''Invalid edge property value: '' @ str (vals ! j)))"
  using assms
proof (induction vals arbitrary: k j st)
  case Nil
  then show ?case by simp
next
  case (Cons val rest)
  from Cons.prems(2) have guard: "\<not> Suc (Suc k) \<ge> length (heprops st) + 2" by simp
  show ?case
  proof (cases j)
    case 0
    with Cons.prems(4) guard show ?thesis by simp
  next
    case (Suc j')
    with Cons.prems(3) have "cvt (k + 0) ((val # rest) ! 0) \<noteq> None" by blast
    then obtain y where y: "cvt k val = Some y" by auto
    let ?st = "st\<lparr>heprops := (heprops st)[k := (heprops st ! k)(idx e \<mapsto> y)]\<rparr>"
    have 2: "j' < length rest" using Cons.prems(1) Suc by simp
    have 3: "Suc k + j' < length (heprops ?st)"
      using Cons.prems(2) Suc by simp
    have 4: "\<forall>m<j'. cvt (Suc k + m) (rest ! m) \<noteq> None"
    proof (intro allI impI)
      fix m assume "m < j'"
      then have "Suc m < j" using Suc by simp
      with Cons.prems(3) have "cvt (k + Suc m) ((val # rest) ! Suc m) \<noteq> None" by blast
      then show "cvt (Suc k + m) (rest ! m) \<noteq> None" by simp
    qed
    have 5: "cvt (Suc k + j') (rest ! j') = None"
      using Cons.prems(4) Suc by simp
    from Cons.IH [where k = "Suc k" and j = j' and st = ?st, OF 2 3 4 5] obtain st' where
      "row_items cast cvt str (Suc (Suc (Suc k))) rest (s, t, e) (?st, tb) =
         Throw (st', tb) (ValueException (''Invalid edge property value: '' @ str (rest ! j')))"
      by blast
    with y guard Suc show ?thesis by simp
  qed
qed

lemma string_row_fails:
  assumes ca: "cast ka \<noteq> None" and cb: "cast kb \<noteq> None"
    and j: "j < length vals" "j < length (heprops st)"
    and ok: "\<forall>m<j. cvt m (vals ! m) \<noteq> None"
    and bad: "cvt j (vals ! j) = None"
  shows "\<exists>st' tb'. row_items cast cvt str 0 (PyStr ka # PyStr kb # vals) (0, 0, null_edge) (st, tb) =
           Throw (st', tb') (ValueException (''Invalid edge property value: '' @ str (vals ! j)))"
proof -
  from get_vertex_ok [where cast = cast and r = ka and st = st and tb = tb, OF ca]
  obtain st1 tb1 s where
    1: "get_vertex cast ka (st, tb) = Ok (st1, tb1) s" by blast
  let ?st1 = "st1\<lparr>hgr := grow1 s (hgr st1)\<rparr>"
  from get_vertex_ok [where cast = cast and r = kb and st = ?st1 and tb = tb1, OF cb]
  obtain st2 tb2 t where
    2: "get_vertex cast kb (?st1, tb1) = Ok (st2, tb2) t" by blast
  let ?g2 = "fst (add_edge s t (grow1 t (hgr st2)))"
  let ?e = "snd (add_edge s t (grow1 t (hgr st2)))"
  let ?st2 = "st2\<lparr>hgr := ?g2\<rparr>"
  have "hstate_le st st1" using 1 by (rule get_vertex_le_Ok)
  moreover have "hstate_le ?st1 st2" using 2 by (rule get_vertex_le_Ok)
  ultimately have len: "length (heprops st1) = length (heprops st)"
    "length (heprops st2) = length (heprops st)"
    by (simp_all add: hstate_le_def)
  have "\<exists>st'. row_items cast cvt str (Suc (Suc 0)) vals (s, t, ?e) (?st2, tb2) =
           Throw (st', tb2) (ValueException (''Invalid edge property value: '' @ str (vals ! j)))"
    using j ok bad len
    by (intro row_items_props_fail [where k = 0 and j = j and cvt = cvt]) simp_all
  then obtain st' where
    "row_items cast cvt str (Suc (Suc 0)) vals (s, t, ?e) (?st2, tb2) =
       Throw (st', tb2) (ValueException (''Invalid edge property value: '' @ str (vals ! j)))"
    by blast
  with 1 2 len have
    "row_items cast cvt str 0 (PyStr ka # PyStr kb # vals) (0, 0, null_edge) (st, tb) =
       Throw (st', tb2) (ValueException (''Invalid edge property value: '' @ str (vals ! j)))"
    by (simp add: case_prod_beta)
  then show ?thesis by blast
qed

lemma string_loader_no_rollback:
  assumes pre: "hash_rows cast cvt str pre (st, Map.empty) = Ok (st1, tb1) ()"
    and ca: "cast ka \<noteq> None" and cb: "cast kb \<noteq> None"
    and j: "j < length vals" "j < length (heprops st)"
    and ok: "\<forall>m<j. cvt m (vals ! m) \<noteq> None"
    and bad: "cvt j (vals ! j) = None"
  shows "\<exists>st2. dispatch_string cast cvt str (pre @ (PyStr ka # PyStr kb # vals) # post) (st, False) =
           Throw (st2, False)
             (ValueException (''Invalid edge property value: '' @ str (vals ! j))) \<and>
           hstate_le st1 st2"
proof -
  let ?x = "ValueException (''Invalid edge property value: '' @ str (vals ! j))"
  let ?row = "PyStr ka # PyStr kb # vals"
  have "hstate_le st st1"
    by (rule hash_rows_le [OF disjI1 [OF pre]])
  with j have j1: "j < length (heprops st1)" by (simp add: hstate_le_def)
  from string_row_fails [where cast = cast and cvt = cvt and str = str and ka = ka and kb = kb
      and vals = vals and j = j and st = st1 and tb = tb1, OF ca cb j(1) j1 ok bad]
  obtain st2 tb2 where
    row: "row_items cast cvt str 0 ?row (0, 0, null_edge) (st1, tb1) = Throw (st2, tb2) ?x"
    by blast
  have le: "hstate_le st1 st2"
    by (rule row_items_le [OF hstate_le_refl _ disjI2 [OF row]]) simp
  have "hash_rows cast cvt str (pre @ ?row # post) (st, Map.empty) = Throw (st2, tb2) ?x"
    using pre row by (simp add: hash_rows_append)
  then have "dispatch_string cast cvt str (pre @ ?row # post) (st, False) = Throw (st2, False) ?x"
    by (simp add: dispatch_string_def)
  with le show ?thesis by blast
qed

section \<open>The claims about the loaders\<close>

text \<open>
  Claim C5: on a sequence of key pairs whose keys the vertex property map can hold, the
  hashed loader for text keys gives every key, in the order in which the keys are first seen,
  the next new vertex index (from the vertex count at the call on), records the key of each
  new vertex in the caller's vertex property map, and uses the index of the table for every
  later occurrence of a key: one edge per pair is appended, between the indices of its keys.
\<close>

theorem hashed_loader_first_seen:
  assumes "\<forall>k\<in>set (pair_keys ps). cast k \<noteq> None"
  shows "\<exists>st'. dispatch_string cast cvt str (pair_rows ps) (st, False) = Ok (st', True) () \<and>
      hash_rows cast cvt str (pair_rows ps) (st, Map.empty) =
        Ok (st', key_table (num_vertices (hgr st)) (first_seen [] (pair_keys ps))) () \<and>
      num_vertices (hgr st') = num_vertices (hgr st) + length (first_seen [] (pair_keys ps)) \<and>
      edge_list (hgr st') = edge_list (hgr st) @
        map (\<lambda>(a, b).
               (the (key_table (num_vertices (hgr st)) (first_seen [] (pair_keys ps)) a),
                the (key_table (num_vertices (hgr st)) (first_seen [] (pair_keys ps)) b))) ps \<and>
      (\<forall>i<length (first_seen [] (pair_keys ps)).
         key_table (num_vertices (hgr st)) (first_seen [] (pair_keys ps))
           (first_seen [] (pair_keys ps) ! i) = Some (num_vertices (hgr st) + i) \<and>
         vmap st' (num_vertices (hgr st) + i) = cast (first_seen [] (pair_keys ps) ! i))"
proof -
  let ?n0 = "num_vertices (hgr st)" and ?keys = "first_seen [] (pair_keys ps)"
  have "hinv ?n0 (vmap st) cast [] (st, Map.empty)"
    by (simp add: hinv_def key_table_def)
  from pair_rows_inv [OF this assms, of cvt str] obtain st' tb' where
    r: "hash_rows cast cvt str (pair_rows ps) (st, Map.empty) = Ok (st', tb') ()"
       "hinv ?n0 (vmap st) cast ?keys (st', tb')"
       "edge_list (hgr st') =
             edge_list (hgr st) @ map (\<lambda>(a, b). (the (tb' a), the (tb' b))) ps"
    by blast
  from r(2) have tb: "tb' = key_table ?n0 ?keys" and d: "distinct ?keys"
    and n: "num_vertices (hgr st') = ?n0 + length ?keys"
    and vm: "\<forall>i<length ?keys. vmap st' (?n0 + i) = cast (?keys ! i)"
    by (simp_all add: hinv_def)
  have "dispatch_string cast cvt str (pair_rows ps) (st, False) = Ok (st', True) ()"
    using r(1) by (simp add: dispatch_string_def)
  with r(1,3) tb n vm key_table_nth [OF d] show ?thesis
    by auto
qed

text \<open>
  The pairs ("a","b"), ("b","c"), ("a","c") on the graph without vertices: three vertices, with
  "a" at 0, "b" at 1 and "c" at 2, and the three edges of the pairs.
\<close>

theorem hashed_loader_first_seen_witness:
  "\<exists>st'. dispatch_string Some (\<lambda>i. Some) (\<lambda>v. ''?'')
            [[PyStr ''a'', PyStr ''b''], [PyStr ''b'', PyStr ''c''], [PyStr ''a'', PyStr ''c'']]
            (empty_hstate, False) = Ok (st', True) () \<and>
         num_vertices (hgr st') = 3 \<and>
         edge_list (hgr st') = [(0, 1), (1, 2), (0, 2)] \<and>
         vmap st' 0 = Some ''a'' \<and> vmap st' 1 = Some ''b'' \<and> vmap st' 2 = Some ''c''"
proof -
  have c: "\<forall>k\<in>set (pair_keys abc_pairs). Some k \<noteq> None" by simp
  from hashed_loader_first_seen [OF c, of "\<lambda>i. Some" "\<lambda>v. ''?''" empty_hstate]
  obtain st' where
    s: "dispatch_string Some (\<lambda>i. Some) (\<lambda>v. ''?'') (pair_rows abc_pairs) (empty_hstate, False) =
          Ok (st', True) ()"
       "num_vertices (hgr st') = num_vertices (hgr empty_hstate) + length [''a'', ''b'', ''c'']"
       "edge_list (hgr st') = edge_list (hgr empty_hstate) @
          map (\<lambda>(a, b).
               (the (key_table (num_vertices (hgr empty_hstate)) [''a'', ''b'', ''c''] a),
                the (key_table (num_vertices (hgr empty_hstate)) [''a'', ''b'', ''c''] b))) abc_pairs"
       "\<forall>i<length [''a'', ''b'', ''c''].
          vmap st' (num_vertices (hgr empty_hstate) + i) = Some ([''a'', ''b'', ''c''] ! i)"
    unfolding abc_keys by blast
  have n0: "num_vertices (hgr empty_hstate) = 0" "edge_list (hgr empty_hstate) = []"
    by (simp_all add: empty_hstate_def empty_graph_def)
  from s(4) have v: "\<And>i. i < 3 \<Longrightarrow> vmap st' i = Some ([''a'', ''b'', ''c''] ! i)"
    unfolding n0 by simp
  have "vmap st' 0 = Some ''a''" "vmap st' 1 = Some ''b''" "vmap st' 2 = Some ''c''"
    using v [of 0] v [of 1] v [of 2] by simp_all
  moreover from s(3) have "edge_list (hgr st') = [(0, 1), (1, 2), (0, 2)]"
    unfolding n0 by (simp add: abc_pairs_def abc_table)
  moreover from s(2) have "num_vertices (hgr st') = 3" unfolding n0 by simp
  moreover from s(1) have "dispatch_string Some (\<lambda>i. Some) (\<lambda>v. ''?'')
            [[PyStr ''a'', PyStr ''b''], [PyStr ''b'', PyStr ''c''], [PyStr ''a'', PyStr ''c'']]
            (empty_hstate, False) = Ok (st', True) ()"
    by (simp add: pair_rows_def abc_pairs_def)
  ultimately show ?thesis by blast
qed

text \<open>
  Claim C6: when an array of an admissible element type is loaded, the first two entries of
  each row are vertex indices (their conversion to \<^verbatim>\<open>size_t\<close> is defined and below
  \<open>size_max\<close>) and the values of the rows past the second can be stored, the direct
  loader returns normally; the vertex count has grown, row after row, to one more than the
  largest index a row refers to (where that is beyond the count), and the edges of the rows
  are appended in the order of the rows, one edge per row, equal rows included.
\<close>

theorem add_edge_list_grows_and_appends:
  assumes "dtype a \<in> set vals_t" "ndim a = 2" "2 \<le> shape1 a"
    and "\<forall>r<shape0 a. vertex_index (elem a r 0) \<and> vertex_index (elem a r 1)"
    and "\<forall>r<shape0 a. \<forall>i<shape1 a - 2. i < length (eprops st) \<and> cvt i (elem a r (i + 2)) \<noteq> None"
  shows "\<exists>st'. do_add_edge_list cvt str st (NdArray a) = Some (Ok st' ()) \<and>
           num_vertices (gr st') =
             spec_grow (num_vertices (gr st)) (row_pairs a [0..<shape0 a]) \<and>
           edge_list (gr st') = edge_list (gr st) @ row_pairs a [0..<shape0 a] \<and>
           length (edge_list (gr st')) = length (edge_list (gr st)) + shape0 a"
proof -
  have "\<forall>r\<in>set [0..<shape0 a]. vertex_index (elem a r 0) \<and> vertex_index (elem a r 1) \<and>
          (\<forall>i<shape1 a - 2. i < length (eprops st) \<and> cvt i (elem a r (i + 2)) \<noteq> None)"
    using assms(4,5) by simp
  from rows_loop_ok [OF this, of str] obtain st' where
    "rows_loop cvt str a [0..<shape0 a] st = Some (Ok st' ())"
    "gr st' = \<lparr>num_vertices = spec_grow (num_vertices (gr st)) (row_pairs a [0..<shape0 a]),
                      edge_list = edge_list (gr st) @ row_pairs a [0..<shape0 a]\<rparr>"
    by blast
  then show ?thesis
    by (simp add: do_add_edge_list_match [OF assms(1-3)] row_pairs_def)
qed

theorem add_edge_list_grows_and_appends_witness:
  "(\<exists>st'. do_add_edge_list (\<lambda>i. Some) (\<lambda>x. ''?'') empty_dstate
            (NdArray (array_of T_int64
               [[IntVal 0, IntVal 1], [IntVal 1, IntVal 2], [IntVal 2, IntVal 0]])) =
            Some (Ok st' ()) \<and>
          num_vertices (gr st') = 3 \<and> edge_list (gr st') = [(0, 1), (1, 2), (2, 0)]) \<and>
   (\<exists>st'. do_add_edge_list (\<lambda>i. Some) (\<lambda>x. ''?'') empty_dstate
            (NdArray (array_of T_double
               [[FloatVal (Fin 0), FloatVal (Fin (3 / 2))],
                [FloatVal (Fin 0), FloatVal (Fin (3 / 2))]])) = Some (Ok st' ()) \<and>
          num_vertices (gr st') = 2 \<and> edge_list (gr st') = [(0, 1), (0, 1)])"
proof -
  let ?a = "array_of T_int64 [[IntVal 0, IntVal 1], [IntVal 1, IntVal 2], [IntVal 2, IntVal 0]]"
  let ?b = "array_of T_double
              [[FloatVal (Fin 0), FloatVal (Fin (3 / 2))],
               [FloatVal (Fin 0), FloatVal (Fin (3 / 2))]]"
  have vi: "vertex_index (IntVal 0)" "vertex_index (IntVal 1)" "vertex_index (IntVal 2)"
    "vertex_index (FloatVal (Fin 0))" "vertex_index (FloatVal (Fin (3 / 2)))"
    by (simp_all add: vertex_index_def size_max_def)
  have a: "dtype ?a \<in> set vals_t" "ndim ?a = 2" "2 \<le> shape1 ?a"
    "\<forall>r<shape0 ?a. vertex_index (elem ?a r 0) \<and> vertex_index (elem ?a r 1)"
    "\<forall>r<shape0 ?a. \<forall>i<shape1 ?a - 2.
       i < length (eprops empty_dstate) \<and> (\<lambda>i. Some) i (elem ?a r (i + 2)) \<noteq> None"
    by (simp_all add: array_of_def vals_t_def vi less_Suc_eq numeral_3_eq_3)
  have b: "dtype ?b \<in> set vals_t" "ndim ?b = 2" "2 \<le> shape1 ?b"
    "\<forall>r<shape0 ?b. vertex_index (elem ?b r 0) \<and> vertex_index (elem ?b r 1)"
    "\<forall>r<shape0 ?b. \<forall>i<shape1 ?b - 2.
       i < length (eprops empty_dstate) \<and> (\<lambda>i. Some) i (elem ?b r (i + 2)) \<noteq> None"
    by (simp_all add: array_of_def vals_t_def vi less_Suc_eq numeral_2_eq_2)
  have pa: "row_pairs ?a [0..<shape0 ?a] = [(0, 1), (1, 2), (2, 0)]"
    by (simp add: row_pairs_def array_of_def upt_rec)
  have pb: "row_pairs ?b [0..<shape0 ?b] = [(0, 1), (0, 1)]"
    by (simp add: row_pairs_def array_of_def upt_rec)
  have g: "num_vertices (gr empty_dstate) = 0" "edge_list (gr empty_dstate) = []"
    by (simp_all add: empty_dstate_def empty_graph_def)
  from add_edge_list_grows_and_appends [OF a, of "\<lambda>x. ''?''"]
  obtain sa where
    sa: "do_add_edge_list (\<lambda>i. Some) (\<lambda>x. ''?'') empty_dstate (NdArray ?a) = Some (Ok sa ())"
    "num_vertices (gr sa) = spec_grow 0 [(0, 1), (1, 2), (2, 0)]"
    "edge_list (gr sa) = [] @ [(0, 1), (1, 2), (2, 0)]"
    unfolding pa g by blast
  from add_edge_list_grows_and_appends [OF b, of "\<lambda>x. ''?''"]
  obtain sb where
    sb: "do_add_edge_list (\<lambda>i. Some) (\<lambda>x. ''?'') empty_dstate (NdArray ?b) = Some (Ok sb ())"
    "num_vertices (gr sb) = spec_grow 0 [(0, 1), (0, 1)]"
    "edge_list (gr sb) = [] @ [(0, 1), (0, 1)]"
    unfolding pb g by blast
  from sa(2,3) have "num_vertices (gr sa) = 3" "edge_list (gr sa) = [(0, 1), (1, 2), (2, 0)]"
    by simp_all
  moreover from sb(2,3) have "num_vertices (gr sb) = 2" "edge_list (gr sb) = [(0, 1), (0, 1)]"
    by simp_all
  ultimately show ?thesis using sa(1) sb(1) by blast
qed

text \<open>
  Claim C7: when the element type of the array is none of the admissible element types, the
  call ends with the exception "Invalid type for edge list; must be two-dimensional with a
  scalar type", and the graph and the property maps are as they were at the call.
\<close>

theorem type_mismatch_leaves_graph:
  assumes "dtype a \<notin> set vals_t"
  shows "do_add_edge_list cvt str st (NdArray a) =
         Some (Throw st (GraphException
                    ''Invalid type for edge list; must be two-dimensional with a scalar type''))"
proof -
  have "\<forall>ty\<in>set vals_t. get_array ty (NdArray a) = None"
    using assms by (auto simp add: get_array_def)
  then have "for_each (dispatch cvt str (NdArray a)) vals_t (st, False) =
      Some (Ok (st, False) ())"
    by (rule for_each_no_match)
  then show ?thesis by (simp add: do_add_edge_list_def)
qed

theorem type_mismatch_leaves_graph_witness:
  "dtype (array_of T_other [[IntVal 0, IntVal 1], [IntVal 1, IntVal 2]]) \<notin> set vals_t \<and>
   do_add_edge_list (\<lambda>i. Some) (\<lambda>x. ''?'') empty_dstate
     (NdArray (array_of T_other [[IntVal 0, IntVal 1], [IntVal 1, IntVal 2]])) =
   Some (Throw empty_dstate
     (GraphException ''Invalid type for edge list; must be two-dimensional with a scalar type''))"
proof -
  have t: "dtype (array_of T_other [[IntVal 0, IntVal 1], [IntVal 1, IntVal 2]]) \<notin> set vals_t"
    by (simp add: array_of_def vals_t_def)
  from type_mismatch_leaves_graph [OF t, of "\<lambda>i. Some" "\<lambda>x. ''?''" empty_dstate] t
  show ?thesis by simp
qed

text \<open>
  Claim C8: when the rows before row \<open>m\<close> have been loaded and a value of row \<open>m\<close>
  cannot be converted for its edge property map (the values before it in the row can), the
  load ends with the exception "Invalid edge property value: " followed by the printed value,
  and the state left behind still has the vertices, the edges and the property values that
  the earlier rows created. This holds for the direct loader, when the first two entries of
  row \<open>m\<close> are vertex indices, and for the hashed loader for text keys.
\<close>

theorem conversion_failure_keeps_earlier_records:
  "(dtype a \<in> set vals_t \<and> ndim a = 2 \<and> 2 \<le> shape1 a \<and> m < shape0 a \<and>
    rows_loop cvt str a [0..<m] st = Some (Ok st1 ()) \<and>
    vertex_index (elem a m 0) \<and> vertex_index (elem a m 1) \<and>
    j + 2 < shape1 a \<and> shape1 a - 2 \<le> length (eprops st) \<and>
    (\<forall>i<j. cvt i (elem a m (i + 2)) \<noteq> None) \<and> cvt j (elem a m (j + 2)) = None \<longrightarrow>
    (\<exists>st2. do_add_edge_list cvt str st (NdArray a) =
             Some (Throw st2
               (ValueException (''Invalid edge property value: '' @ str (elem a m (j + 2))))) \<and>
           dstate_le st1 st2)) \<and>
   (hash_rows cast cvt' str' pre (hst, Map.empty) = Ok (hst1, tb1) () \<and>
    cast ka \<noteq> None \<and> cast kb \<noteq> None \<and> n < length vals \<and> n < length (heprops hst) \<and>
    (\<forall>i<n. cvt' i (vals ! i) \<noteq> None) \<and> cvt' n (vals ! n) = None \<longrightarrow>
    (\<exists>hst2. dispatch_string cast cvt' str' (pre @ (PyStr ka # PyStr kb # vals) # post) (hst, False) =
             Throw (hst2, False)
               (ValueException (''Invalid edge property value: '' @ str' (vals ! n))) \<and>
           hstate_le hst1 hst2))"
  using direct_loader_no_rollback [of a m cvt str st st1 j]
    string_loader_no_rollback [of cast cvt' str' pre hst hst1 tb1 ka kb n vals post]
  by blast

theorem conversion_failure_keeps_earlier_records_witness:
  "\<exists>st2 hst2.
     do_add_edge_list (\<lambda>i x. if x = IntVal 7 then None else Some x) (\<lambda>x. ''7'')
       \<lparr>gr = empty_graph, eprops = [Map.empty]\<rparr>
       (NdArray (array_of T_int64
          [[IntVal 0, IntVal 1, IntVal 5], [IntVal 2, IntVal 3, IntVal 7]])) =
       Some (Throw st2 (ValueException ''Invalid edge property value: 7'')) \<and>
     2 \<le> num_vertices (gr st2) \<and>
     take 1 (edge_list (gr st2)) = [(0, 1)] \<and>
     (eprops st2 ! 0) 0 = Some (IntVal 5) \<and>
     dispatch_string Some (\<lambda>i v. case v of PyInt n \<Rightarrow> Some n | _ \<Rightarrow> None) (\<lambda>v. ''None'')
       [[PyStr ''a'', PyStr ''b'', PyInt 5], [PyStr ''b'', PyStr ''c'', PyNone]]
       (\<lparr>hgr = empty_graph, heprops = [Map.empty], vmap = Map.empty\<rparr>, False) =
       Throw (hst2, False) (ValueException ''Invalid edge property value: None'') \<and>
     2 \<le> num_vertices (hgr hst2) \<and>
     take 1 (edge_list (hgr hst2)) = [(0, 1)] \<and>
     (heprops hst2 ! 0) 0 = Some 5 \<and>
     vmap hst2 0 = Some ''a'' \<and> vmap hst2 1 = Some ''b''"
proof -
  let ?cvt = "\<lambda>(i::nat) (x::scalar). if x = IntVal 7 then None else Some x"
  let ?str = "\<lambda>x::scalar. ''7''"
  let ?a = "array_of T_int64 [[IntVal 0, IntVal 1, IntVal 5], [IntVal 2, IntVal 3, IntVal 7]]"
  let ?st = "\<lparr>gr = empty_graph, eprops = [Map.empty :: nat \<rightharpoonup> scalar]\<rparr>"
  let ?st1 = "\<lparr>gr = \<lparr>num_vertices = 2, edge_list = [(0, 1)]\<rparr>,
               eprops = [[0 \<mapsto> IntVal 5]]\<rparr>"
  let ?hcvt = "\<lambda>(i::nat) v. case v of PyInt n \<Rightarrow> Some n | _ \<Rightarrow> None"
  let ?hstr = "\<lambda>v::pyval. ''None''"
  let ?hst = "\<lparr>hgr = empty_graph, heprops = [Map.empty :: nat \<rightharpoonup> int],
                vmap = (Map.empty :: nat \<rightharpoonup> string)\<rparr>"
  let ?hst1 = "\<lparr>hgr = \<lparr>num_vertices = 2, edge_list = [(0, 1)]\<rparr>,
                heprops = [[0 \<mapsto> 5 :: int]], vmap = [0 \<mapsto> ''a'', 1 \<mapsto> ''b'']\<rparr>"
  let ?tb1 = "[''a'' \<mapsto> 0 :: nat, ''b'' \<mapsto> 1]"
  let ?pre = "[[PyStr ''a'', PyStr ''b'', PyInt 5]]"
  have st1: "rows_loop ?cvt ?str ?a [0..<1] ?st = Some (Ok ?st1 ())"
    by (simp add: array_of_def grow_exit size_max_def add_edge_def empty_graph_def)
  have hpre: "hash_rows Some ?hcvt ?hstr ?pre (?hst, Map.empty) = Ok (?hst1, ?tb1) ()"
    by (simp add: get_vertex_def grow1_eq add_vertex_def add_edge_def empty_graph_def
        null_edge_def)
  note inst = conversion_failure_keeps_earlier_records
    [where a = ?a and m = 1 and cvt = ?cvt and str = ?str and st = ?st and ?st1.0 = ?st1
      and j = 0 and cast = Some and cvt' = ?hcvt and str' = ?hstr and pre = ?pre
      and hst = ?hst and ?hst1.0 = ?hst1 and ?tb1.0 = ?tb1 and ka = "''b''" and kb = "''c''"
      and n = 0 and vals = "[PyNone]" and post = "[]"]
  have d: "dtype ?a \<in> set vals_t \<and> ndim ?a = 2 \<and> 2 \<le> shape1 ?a \<and> 1 < shape0 ?a \<and>
      vertex_index (elem ?a 1 0) \<and> vertex_index (elem ?a 1 1) \<and>
      0 + 2 < shape1 ?a \<and> shape1 ?a - 2 \<le> length (eprops ?st) \<and>
      (\<forall>i<0. ?cvt i (elem ?a 1 (i + 2)) \<noteq> None) \<and> ?cvt 0 (elem ?a 1 (0 + 2)) = None"
    by (simp add: array_of_def vals_t_def vertex_index_def size_max_def)
  from inst st1 d obtain st2 where
    st2: "do_add_edge_list ?cvt ?str ?st (NdArray ?a) =
       Some (Throw st2
         (ValueException (''Invalid edge property value: '' @ ?str (elem ?a 1 (0 + 2)))))"
      "dstate_le ?st1 st2"
    by blast
  have h: "Some ''b'' \<noteq> None \<and> Some ''c'' \<noteq> None \<and> 0 < length [PyNone] \<and>
      0 < length (heprops ?hst) \<and> (\<forall>i<0. ?hcvt i ([PyNone] ! i) \<noteq> None) \<and>
      ?hcvt 0 ([PyNone] ! 0) = None"
    by simp
  from inst hpre h obtain hst2 where
    hst2: "dispatch_string Some ?hcvt ?hstr
        (?pre @ (PyStr ''b'' # PyStr ''c'' # [PyNone]) # []) (?hst, False) =
       Throw (hst2, False)
         (ValueException (''Invalid edge property value: '' @ ?hstr ([PyNone] ! 0)))"
      "hstate_le ?hst1 hst2"
    by blast
  from st2(1) have s: "do_add_edge_list ?cvt ?str ?st (NdArray ?a) =
       Some (Throw st2 (ValueException ''Invalid edge property value: 7''))"
    by simp
  from hst2(1) have hs: "dispatch_string Some ?hcvt ?hstr
       [[PyStr ''a'', PyStr ''b'', PyInt 5], [PyStr ''b'', PyStr ''c'', PyNone]] (?hst, False) =
       Throw (hst2, False) (ValueException ''Invalid edge property value: None'')"
    by simp
  from st2(2) have k: "2 \<le> num_vertices (gr st2)" "take 1 (edge_list (gr st2)) = [(0, 1)]"
    "(eprops st2 ! 0) 0 = Some (IntVal 5)"
    by (simp_all add: dstate_le_def)
  from hst2(2) have hk: "2 \<le> num_vertices (hgr hst2)"
    "take 1 (edge_list (hgr hst2)) = [(0, 1)]" "(heprops hst2 ! 0) 0 = Some 5"
    "vmap hst2 0 = Some ''a''" "vmap hst2 1 = Some ''b''"
    by (simp_all add: hstate_le_def)
  from s k hs hk show ?thesis by blast
qed

text \<open>
  Claim C10: the call with a count \<open>n > 1\<close> adds \<open>n\<close> vertices and returns no
  vertex; with \<open>n = 0\<close> as with \<open>n = 1\<close> it adds exactly one vertex and returns
  that vertex.
\<close>

theorem py_add_vertex_cases:
  "(1 < n \<longrightarrow> py_add_vertex g n = (g\<lparr>num_vertices := num_vertices g + n\<rparr>, None)) \<and>
   (n \<le> 1 \<longrightarrow> py_add_vertex g n = (g\<lparr>num_vertices := num_vertices g + 1\<rparr>, Some (num_vertices g)))"
  by (simp add: py_add_vertex_def add_vertices_num add_vertex_def)

theorem py_add_vertex_cases_witness:
  "py_add_vertex empty_graph 0 = (\<lparr>num_vertices = 1, edge_list = []\<rparr>, Some 0) \<and>
   py_add_vertex empty_graph 1 = (\<lparr>num_vertices = 1, edge_list = []\<rparr>, Some 0) \<and>
   py_add_vertex empty_graph 3 = (\<lparr>num_vertices = 3, edge_list = []\<rparr>, None)"
  using py_add_vertex_cases [of 0 empty_graph] py_add_vertex_cases [of 1 empty_graph]
    py_add_vertex_cases [of 3 empty_graph]
  by (simp add: empty_graph_def)

end
